theory Spec2Isabelle
  imports Complex_Main "HOL-Library.Log_Nat"
begin

section \<open>Arrays\<close>

text \<open>
  The module \<^verbatim>\<open>engine/board.py\<close> works on three-dimensional numpy arrays indexed
  \<^verbatim>\<open>[channel, rank, file]\<close>. An array is modelled as a list of planes, a plane as a
  list of rows, a row as a list of cells. A cell holds a finite \<^verbatim>\<open>float32\<close> (the
  dtype the encoders create), modelled as the real number it denotes. The only
  arithmetic the module performs on cells is \<^verbatim>\<open>1.0 - v\<close>, a \<^verbatim>\<open>float32\<close> subtraction:
  the exact difference rounded to the nearest \<^verbatim>\<open>float32\<close> (\<open>f32_round\<close> below); the
  only comparison is \<^verbatim>\<open>v > 0.5\<close>. An index past the end of an axis raises \<^verbatim>\<open>IndexError\<close>, a missing
  dictionary key raises \<^verbatim>\<open>KeyError\<close>, an assignment between arrays of different
  shapes raises \<^verbatim>\<open>ValueError\<close>.
\<close>

datatype py_error = IndexError | KeyError | ValueError

type_synonym row = "real list"
type_synonym plane = "row list"
type_synonym tensor = "plane list"

text \<open>Sequencing of two steps, the first of which may raise.\<close>

definition and_then :: "py_error + 'a \<Rightarrow> ('a \<Rightarrow> py_error + 'b) \<Rightarrow> py_error + 'b" where
  "and_then m k = (case m of Inl e \<Rightarrow> Inl e | Inr x \<Rightarrow> k x)"

text \<open>\<^verbatim>\<open>np.zeros((c, h, w))\<close> and \<^verbatim>\<open>np.zeros_like(tensor)\<close>.\<close>

definition zeros :: "nat \<Rightarrow> nat \<Rightarrow> nat \<Rightarrow> tensor" where
  "zeros c h w = replicate c (replicate h (replicate w 0))"

definition zeros_like :: "tensor \<Rightarrow> tensor" where
  "zeros_like tensor = map (map (map (\<lambda>v. 0))) tensor"

text \<open>\<^verbatim>\<open>tensor[c]\<close> read and \<^verbatim>\<open>tensor[c] = p\<close> write, for a whole plane.\<close>

definition get_plane :: "tensor \<Rightarrow> nat \<Rightarrow> py_error + plane" where
  "get_plane tensor c = (if c < length tensor then Inr (tensor ! c) else Inl IndexError)"

definition set_plane :: "tensor \<Rightarrow> nat \<Rightarrow> plane \<Rightarrow> py_error + tensor" where
  "set_plane tensor c p = (if c < length tensor then Inr (tensor[c := p]) else Inl IndexError)"

text \<open>\<^verbatim>\<open>tensor[c, r, f]\<close> read and \<^verbatim>\<open>tensor[c, r, f] = v\<close> write, for one cell.\<close>

definition get_cell :: "tensor \<Rightarrow> nat \<Rightarrow> nat \<Rightarrow> nat \<Rightarrow> py_error + real" where
  "get_cell tensor c r f =
     (if c < length tensor \<and> r < length (tensor ! c) \<and> f < length (tensor ! c ! r)
      then Inr (tensor ! c ! r ! f) else Inl IndexError)"

definition set_cell :: "tensor \<Rightarrow> nat \<Rightarrow> nat \<Rightarrow> nat \<Rightarrow> real \<Rightarrow> py_error + tensor" where
  "set_cell tensor c r f v =
     (if c < length tensor \<and> r < length (tensor ! c) \<and> f < length (tensor ! c ! r)
      then Inr (tensor[c := (tensor ! c)[r := (tensor ! c ! r)[f := v]]])
      else Inl IndexError)"

text \<open>\<^verbatim>\<open>np.flip(p, axis=0)\<close> on a plane reverses the order of its rows (ranks).\<close>

definition np_flip :: "plane \<Rightarrow> plane" where
  "np_flip p = rev p"

text \<open>
  Binary floating point, rounding to nearest with ties to even. A nonzero real \<open>r\<close>
  has the binary exponent \<open>\<lfloor>log 2 \<bar>r\<bar>\<rfloor>\<close>, computed by \<open>fp_exponent\<close> from the bit
  length of an integer. In a format of precision \<open>p\<close> and least normal exponent
  \<open>emin\<close> the representable numbers around \<open>r\<close> are the integer multiples of
  \<open>2\<close> to the power \<open>max e emin - (p - 1)\<close>, and \<open>fp_round\<close> takes the nearest of them,
  the one with the even multiplier at a tie. \<^verbatim>\<open>float32\<close> has precision 24 and least
  exponent \<open>-126\<close>, \<^verbatim>\<open>float64\<close> precision 53 and least exponent \<open>-1022\<close>. Overflow to
  infinity is not represented; the module's one subtraction \<^verbatim>\<open>1.0 - v\<close> cannot
  overflow on a finite \<^verbatim>\<open>float32\<close>.
\<close>

definition fp_exponent :: "real \<Rightarrow> int" where
  "fp_exponent r =
     (if 1 \<le> \<bar>r\<bar> then bitlen \<lfloor>\<bar>r\<bar>\<rfloor> - 1 else - bitlen (\<lceil>1 / \<bar>r\<bar>\<rceil> - 1))"

definition round_half_even :: "real \<Rightarrow> int" where
  "round_half_even q =
     (let n = \<lfloor>q\<rfloor>; d = q - of_int n
      in if d < 1 / 2 then n else if 1 / 2 < d then n + 1 else if even n then n else n + 1)"

definition fp_round :: "nat \<Rightarrow> int \<Rightarrow> real \<Rightarrow> real" where
  "fp_round p emin r =
     (if r = 0 then 0
      else let e = max (fp_exponent r) emin; u = 2 powi (e - (int p - 1))
           in of_int (round_half_even (r / u)) * u)"

definition f32_round :: "real \<Rightarrow> real" where
  "f32_round r = fp_round 24 (- 126) r"

definition f64_round :: "real \<Rightarrow> real" where
  "f64_round r = fp_round 53 (- 1022) r"

text \<open>\<^verbatim>\<open>1.0 - p\<close> on a plane, cell by cell, in \<^verbatim>\<open>float32\<close>.\<close>

definition one_minus :: "plane \<Rightarrow> plane" where
  "one_minus p = map (map (\<lambda>v. f32_round (1 - v))) p"

text \<open>
  \<^verbatim>\<open>tensor[c, :, :] = v\<close> fills a plane with one value; \<^verbatim>\<open>tensor[c, :, f] = v\<close> fills
  one file (column) of a plane.
\<close>

definition fill_plane :: "tensor \<Rightarrow> nat \<Rightarrow> real \<Rightarrow> py_error + tensor" where
  "fill_plane tensor c v =
     (if c < length tensor then Inr (tensor[c := map (map (\<lambda>x. v)) (tensor ! c)])
      else Inl IndexError)"

definition fill_file :: "tensor \<Rightarrow> nat \<Rightarrow> nat \<Rightarrow> real \<Rightarrow> py_error + tensor" where
  "fill_file tensor c f v =
     (if c < length tensor \<and> list_all (\<lambda>r. f < length r) (tensor ! c)
      then Inr (tensor[c := map (\<lambda>r. r[f := v]) (tensor ! c)])
      else Inl IndexError)"

text \<open>
  \<^verbatim>\<open>tensor[:n] = src\<close> copies \<open>src\<close> over the first \<open>n\<close> planes. The module only
  assigns an array of the very shape of the slice; any other shape is reported as
  the \<^verbatim>\<open>ValueError\<close> numpy raises when shapes cannot be matched.
\<close>

definition shape_of :: "tensor \<Rightarrow> nat list list" where
  "shape_of t = map (map length) t"

definition set_planes_upto :: "tensor \<Rightarrow> nat \<Rightarrow> tensor \<Rightarrow> py_error + tensor" where
  "set_planes_upto tensor n src =
     (if shape_of src = shape_of (take n tensor) then Inr (src @ drop n tensor)
      else Inl ValueError)"

text \<open>
  The shape of an array: \<open>is_array c h w t\<close> says that \<open>t\<close> is a numpy array of shape
  \<open>(c, h, w)\<close>.
\<close>

definition is_array :: "nat \<Rightarrow> nat \<Rightarrow> nat \<Rightarrow> tensor \<Rightarrow> bool" where
  "is_array c h w t \<longleftrightarrow>
     length t = c \<and> list_all (\<lambda>p. length p = h \<and> list_all (\<lambda>r. length r = w) p) t"

section \<open>Flipping an array\<close>

text \<open>
  \<^verbatim>\<open>flip_board_tensor\<close>, lines 83 to 104. The loop \<^verbatim>\<open>for i in range(6)\<close> is
  \<open>flip_loop\<close> over the list \<open>[0..<6]\<close>; each numpy read and write is a step that may
  raise, in the order the interpreter performs them (the right-hand side first).
\<close>

definition flip_step :: "tensor \<Rightarrow> nat \<Rightarrow> tensor \<Rightarrow> py_error + tensor" where
  "flip_step tensor i flipped =
     and_then (get_plane tensor (i + 6)) (\<lambda>p.
     and_then (set_plane flipped i (np_flip p)) (\<lambda>flipped.
     and_then (get_plane tensor i) (\<lambda>q.
     set_plane flipped (i + 6) (np_flip q))))"

fun flip_loop :: "tensor \<Rightarrow> nat list \<Rightarrow> tensor \<Rightarrow> py_error + tensor" where
  "flip_loop tensor [] flipped = Inr flipped"
| "flip_loop tensor (i # rest) flipped =
     and_then (flip_step tensor i flipped) (flip_loop tensor rest)"

definition copy_plane :: "tensor \<Rightarrow> nat \<Rightarrow> nat \<Rightarrow> tensor \<Rightarrow> py_error + tensor" where
  "copy_plane tensor src dst flipped =
     and_then (get_plane tensor src) (\<lambda>p. set_plane flipped dst p)"

definition flip_board_tensor :: "tensor \<Rightarrow> py_error + tensor" where
  "flip_board_tensor tensor =
     and_then (flip_loop tensor [0..<6] (zeros_like tensor)) (\<lambda>flipped.
     if length tensor > 12 then
       and_then (get_plane tensor 12) (\<lambda>p.
       and_then (set_plane flipped 12 (one_minus p)) (\<lambda>flipped.
       and_then (copy_plane tensor 15 13 flipped) (\<lambda>flipped.
       and_then (copy_plane tensor 16 14 flipped) (\<lambda>flipped.
       and_then (copy_plane tensor 13 15 flipped) (\<lambda>flipped.
       and_then (copy_plane tensor 14 16 flipped) (\<lambda>flipped.
       and_then (if length tensor > 17
                 then and_then (get_plane tensor 17) (\<lambda>p. set_plane flipped 17 (np_flip p))
                 else Inr flipped) (\<lambda>flipped.
       and_then (if length tensor > 18
                 then copy_plane tensor 18 18 flipped
                 else Inr flipped) Inr)))))))
     else Inr flipped)"

section \<open>Positions\<close>

text \<open>
  Modelled from the spec: the position class \<^verbatim>\<open>chess.Board\<close> and the piece class
  \<^verbatim>\<open>chess.Piece\<close> belong to the chess library the module imports, which is not
  among the sources. The module uses a position through the queries the spec lists
  as consumed from that collaborator, and these are the fields of the record below:
  the piece on a square (squares are numbered \<open>0\<close> to \<open>63\<close>, \<open>8 * rank + file\<close>), the
  side to move, the castling rights per side and direction, the optional en-passant
  square and the halfmove clock. A piece is one of the six piece types with a colour.
\<close>

datatype color = WHITE | BLACK

datatype piece_type = PAWN | KNIGHT | BISHOP | ROOK | QUEEN | KING

datatype piece = Piece (piece_type: piece_type) (color: color)

record board =
  piece_at :: "nat \<Rightarrow> piece option"
  turn :: color
  has_kingside_castling_rights :: "color \<Rightarrow> bool"
  has_queenside_castling_rights :: "color \<Rightarrow> bool"
  ep_square :: "nat option"
  halfmove_clock :: nat

text \<open>\<^verbatim>\<open>chess.SQUARES\<close>, \<^verbatim>\<open>chess.square_rank\<close>, \<^verbatim>\<open>chess.square_file\<close>, \<^verbatim>\<open>chess.square\<close>.\<close>

definition SQUARES :: "nat list" where
  "SQUARES = [0..<64]"

definition square_rank :: "nat \<Rightarrow> nat" where
  "square_rank sq = sq div 8"

definition square_file :: "nat \<Rightarrow> nat" where
  "square_file sq = sq mod 8"

definition square :: "nat \<Rightarrow> nat \<Rightarrow> nat" where
  "square file_index rank_index = rank_index * 8 + file_index"

text \<open>
  Modelled from the spec: constructing an empty position and placing a piece on a
  square are the two operations the decoder consumes. \<^verbatim>\<open>chess.Board(fen=None)\<close> is
  the library's cleared board: no piece on any square, White to move, no castling
  rights, no en-passant square, halfmove clock zero.
  \<^verbatim>\<open>board.set_piece_at(square, piece)\<close> puts a piece on a square, replacing what was
  there, and leaves the rest of the position as it was.
\<close>

definition Board_empty :: board where
  "Board_empty =
     \<lparr>piece_at = (\<lambda>sq. None), turn = WHITE,
      has_kingside_castling_rights = (\<lambda>c. False),
      has_queenside_castling_rights = (\<lambda>c. False),
      ep_square = None, halfmove_clock = 0\<rparr>"

definition set_piece_at :: "board \<Rightarrow> nat \<Rightarrow> piece \<Rightarrow> board" where
  "set_piece_at board sq piece = board\<lparr>piece_at := (piece_at board)(sq \<mapsto> piece)\<rparr>"

section \<open>Encoding a position\<close>

text \<open>The table \<^verbatim>\<open>PIECE_TO_CHANNEL\<close>, lines 5 to 12.\<close>

fun PIECE_TO_CHANNEL :: "piece_type \<Rightarrow> nat" where
  "PIECE_TO_CHANNEL PAWN = 0"
| "PIECE_TO_CHANNEL KNIGHT = 1"
| "PIECE_TO_CHANNEL BISHOP = 2"
| "PIECE_TO_CHANNEL ROOK = 3"
| "PIECE_TO_CHANNEL QUEEN = 4"
| "PIECE_TO_CHANNEL KING = 5"

text \<open>
  \<^verbatim>\<open>board_to_tensor\<close>, lines 14 to 25: \<open>piece_channel\<close> is the channel computed
  in lines 20 to 22, \<open>board_to_tensor_loop\<close> the loop over \<^verbatim>\<open>chess.SQUARES\<close>.
\<close>

definition piece_channel :: "piece \<Rightarrow> nat" where
  "piece_channel piece =
     (let channel = PIECE_TO_CHANNEL (piece_type piece)
      in if color piece = BLACK then channel + 6 else channel)"

fun board_to_tensor_loop :: "board \<Rightarrow> nat list \<Rightarrow> tensor \<Rightarrow> py_error + tensor" where
  "board_to_tensor_loop board [] tensor = Inr tensor"
| "board_to_tensor_loop board (sq # rest) tensor =
     (case piece_at board sq of
        None \<Rightarrow> board_to_tensor_loop board rest tensor
      | Some piece \<Rightarrow>
          and_then (set_cell tensor (piece_channel piece)
                      (square_rank sq) (square_file sq) 1)
            (\<lambda>tensor. board_to_tensor_loop board rest tensor))"

definition board_to_tensor :: "board \<Rightarrow> py_error + tensor" where
  "board_to_tensor board = board_to_tensor_loop board SQUARES (zeros 12 8 8)"

text \<open>
  \<^verbatim>\<open>board_to_tensor_extended\<close>, lines 27 to 52. In line 49 the clock, an integer, is
  converted to a \<^verbatim>\<open>float64\<close> and divided by \<^verbatim>\<open>100.0\<close> in \<^verbatim>\<open>float64\<close>; line 50 stores
  the minimum with \<^verbatim>\<open>1.0\<close> into the \<^verbatim>\<open>float32\<close> array. A clock of \<open>2\<close> to the power
  \<open>1024\<close> or more, which the conversion to a float rejects with an overflow error,
  is outside this definition.
\<close>

definition board_to_tensor_extended :: "board \<Rightarrow> py_error + tensor" where
  "board_to_tensor_extended board =
     and_then (board_to_tensor board) (\<lambda>basic.
     and_then (set_planes_upto (zeros 19 8 8) 12 basic) (\<lambda>tensor.
     and_then (if turn board = WHITE then fill_plane tensor 12 1 else Inr tensor) (\<lambda>tensor.
     and_then (if has_kingside_castling_rights board WHITE
               then fill_plane tensor 13 1 else Inr tensor) (\<lambda>tensor.
     and_then (if has_queenside_castling_rights board WHITE
               then fill_plane tensor 14 1 else Inr tensor) (\<lambda>tensor.
     and_then (if has_kingside_castling_rights board BLACK
               then fill_plane tensor 15 1 else Inr tensor) (\<lambda>tensor.
     and_then (if has_queenside_castling_rights board BLACK
               then fill_plane tensor 16 1 else Inr tensor) (\<lambda>tensor.
     and_then (case ep_square board of
                 None \<Rightarrow> Inr tensor
               | Some sq \<Rightarrow> fill_file tensor 17 (square_file sq) 1) (\<lambda>tensor.
     fill_plane tensor 18
       (f32_round (min (f64_round (f64_round (real (halfmove_clock board)) / 100)) 1))))))))))"

section \<open>Decoding an array\<close>

text \<open>
  \<^verbatim>\<open>tensor_to_board\<close>, lines 54 to 81. The dictionary \<^verbatim>\<open>channel_to_piece\<close> is a
  map; the three nested loops are \<open>channel_loop\<close>, \<open>row_loop\<close> and \<open>col_loop\<close>.
\<close>

definition channel_to_piece :: "nat \<rightharpoonup> piece_type \<times> color" where
  "channel_to_piece =
     [0 \<mapsto> (PAWN, WHITE), 1 \<mapsto> (KNIGHT, WHITE), 2 \<mapsto> (BISHOP, WHITE),
      3 \<mapsto> (ROOK, WHITE), 4 \<mapsto> (QUEEN, WHITE), 5 \<mapsto> (KING, WHITE),
      6 \<mapsto> (PAWN, BLACK), 7 \<mapsto> (KNIGHT, BLACK), 8 \<mapsto> (BISHOP, BLACK),
      9 \<mapsto> (ROOK, BLACK), 10 \<mapsto> (QUEEN, BLACK), 11 \<mapsto> (KING, BLACK)]"

fun col_loop ::
  "tensor \<Rightarrow> nat \<Rightarrow> piece_type \<Rightarrow> color \<Rightarrow> nat \<Rightarrow> nat list \<Rightarrow> board \<Rightarrow> py_error + board" where
  "col_loop tensor channel pt cl row [] board = Inr board"
| "col_loop tensor channel pt cl row (col # cols) board =
     and_then (get_cell tensor channel row col) (\<lambda>v.
       col_loop tensor channel pt cl row cols
         (if v > 0.5 then set_piece_at board (square col row) (Piece pt cl) else board))"

fun row_loop ::
  "tensor \<Rightarrow> nat \<Rightarrow> piece_type \<Rightarrow> color \<Rightarrow> nat list \<Rightarrow> board \<Rightarrow> py_error + board" where
  "row_loop tensor channel pt cl [] board = Inr board"
| "row_loop tensor channel pt cl (row # rows) board =
     and_then (col_loop tensor channel pt cl row [0..<8] board)
       (\<lambda>board. row_loop tensor channel pt cl rows board)"

fun channel_loop :: "tensor \<Rightarrow> nat list \<Rightarrow> board \<Rightarrow> py_error + board" where
  "channel_loop tensor [] board = Inr board"
| "channel_loop tensor (channel # channels) board =
     (case channel_to_piece channel of
        None \<Rightarrow> Inl KeyError
      | Some (pt, cl) \<Rightarrow>
          and_then (row_loop tensor channel pt cl [0..<8] board)
            (\<lambda>board. channel_loop tensor channels board))"

definition tensor_to_board :: "tensor \<Rightarrow> py_error + board" where
  "tensor_to_board tensor = channel_loop tensor [0..<12] Board_empty"

section \<open>Well-formed inputs\<close>

text \<open>
  A valid array has shape \<open>(12, 8, 8)\<close> or \<open>(19, 8, 8)\<close>, and its flag channels
  (side to move, castling rights, en passant: channels 12 to 17) hold \<open>0\<close> and \<open>1\<close> only.
\<close>

definition binary_plane :: "plane \<Rightarrow> bool" where
  "binary_plane p = list_all (list_all (\<lambda>v. v = 0 \<or> v = 1)) p"

definition valid_array :: "tensor \<Rightarrow> bool" where
  "valid_array x \<longleftrightarrow>
     (is_array 12 8 8 x \<or> is_array 19 8 8 x) \<and> list_all binary_plane (take 6 (drop 12 x))"

text \<open>
  Vocabulary for the decoder. Channel \<open>c\<close> is active at a square when its cell there
  exceeds \<open>0.5\<close>; \<open>channel_piece c\<close> is the piece the table assigns to channel \<open>c\<close>;
  an array is readable by the decoder when it has the twelve channels, eight ranks
  and eight files the decoder indexes.
\<close>

definition active :: "tensor \<Rightarrow> nat \<Rightarrow> nat \<Rightarrow> bool" where
  "active t c sq \<longleftrightarrow> sq < 64 \<and> t ! c ! square_rank sq ! square_file sq > 0.5"

definition channel_piece :: "nat \<Rightarrow> piece option" where
  "channel_piece c = map_option (\<lambda>(pt, cl). Piece pt cl) (channel_to_piece c)"

definition readable :: "tensor \<Rightarrow> bool" where
  "readable t \<longleftrightarrow>
     12 \<le> length t \<and>
     list_all (\<lambda>p. 8 \<le> length p \<and> list_all (\<lambda>r. 8 \<le> length r) (take 8 p)) (take 12 t)"

text \<open>
  Inputs used as examples: a board whose only piece is a white queen on e4
  (square 28); a board after the pawn push to e4, with Black to move and the
  en-passant square e3 (square 20, file 4); and an array of twelve channels in which
  the six white channels are all set on a1 (rank 0, file 0).
\<close>

definition queen_e4 :: board where
  "queen_e4 = set_piece_at Board_empty 28 (Piece QUEEN WHITE)"

definition pawn_e4 :: board where
  "pawn_e4 =
     (set_piece_at Board_empty 28 (Piece PAWN WHITE))\<lparr>turn := BLACK, ep_square := Some 20\<rparr>"

definition a1_plane :: plane where
  "a1_plane = (1 # replicate 7 0) # replicate 7 (replicate 8 0)"

definition multi_hot :: tensor where
  "multi_hot = replicate 6 a1_plane @ replicate 6 (replicate 8 (replicate 8 0))"

section \<open>Properties of the rounding\<close>

lemma two_powr_nonneg: "0 \<le> k \<Longrightarrow> (2::real) powr (of_int k) = 2 ^ nat k"
  by (simp add: powr_int)

lemma two_powr_nonpos: "k \<le> 0 \<Longrightarrow> (2::real) powr (of_int k) = 1 / 2 ^ nat (- k)"
  by (cases "k = 0") (simp_all add: powr_int)

lemma int_le_real_power: "(a::int) \<le> 2 ^ n \<Longrightarrow> real_of_int a \<le> 2 ^ n"
  by (metis of_int_le_iff of_int_numeral of_int_power)

lemma int_ge_real_power: "2 ^ n \<le> (a::int) \<Longrightarrow> 2 ^ n \<le> real_of_int a"
  by (metis of_int_le_iff of_int_numeral of_int_power)

lemma floor_log2_bitlen:
  assumes "1 \<le> x"
  shows "\<lfloor>log 2 x\<rfloor> = bitlen \<lfloor>x\<rfloor> - 1"
proof -
  define a where "a = \<lfloor>x\<rfloor>"
  define n where "n = bitlen a - 1"
  have a: "0 < a" using assms by (simp add: a_def)
  then have n: "0 \<le> n" by (auto simp: n_def bitlen_alt_def)
  have b: "2 ^ nat (bitlen a - 1) \<le> a \<and> a < 2 ^ nat (bitlen a)"
    using bitlen_bounds [OF a] .
  have lo: "2 ^ nat n \<le> a"
    using b unfolding n_def by simp
  have "a < 2 ^ nat (n + 1)"
    using b unfolding n_def by simp
  then have hi: "a + 1 \<le> 2 ^ nat (n + 1)"
    by simp
  have "(2::real) ^ nat n \<le> of_int a"
    using lo by (rule int_ge_real_power)
  moreover have "of_int (a + 1) \<le> (2::real) ^ nat (n + 1)"
    using hi by (rule int_le_real_power)
  moreover have "of_int a \<le> x" and "x < of_int (a + 1)"
    unfolding a_def using floor_correct [of x] by simp_all
  ultimately have "(2::real) ^ nat n \<le> x" and "x < (2::real) ^ nat (n + 1)"
    by linarith+
  then have "(2::real) powr (of_int n) \<le> x \<and> x < 2 powr (of_int (n + 1))"
    using n by (simp only: two_powr_nonneg)
  then have "\<lfloor>log 2 x\<rfloor> = n"
    using assms by (subst floor_log_eq_powr_iff) simp_all
  then show ?thesis
    by (simp add: n_def a_def)
qed

lemma floor_log2_bitlen_inverse:
  assumes "0 < x" and "x < 1"
  shows "\<lfloor>log 2 x\<rfloor> = - bitlen (\<lceil>1 / x\<rceil> - 1)"
proof -
  define y where "y = 1 / x"
  define c where "c = \<lceil>y\<rceil> - 1"
  define m where "m = bitlen c"
  have y: "1 < y" using assms by (simp add: y_def)
  then have c: "0 < c" unfolding c_def by linarith
  then have m: "1 \<le> m" by (auto simp: m_def bitlen_alt_def)
  have b: "2 ^ nat (bitlen c - 1) \<le> c \<and> c < 2 ^ nat (bitlen c)"
    using bitlen_bounds [OF c] .
  have lo0: "2 ^ nat (m - 1) \<le> c"
    using b unfolding m_def by simp
  have "c < 2 ^ nat m"
    using b unfolding m_def by simp
  then have hi0: "c + 1 \<le> 2 ^ nat m"
    by simp
  have "(2::real) ^ nat (m - 1) \<le> of_int c"
    using lo0 by (rule int_ge_real_power)
  moreover have "of_int (c + 1) \<le> (2::real) ^ nat m"
    using hi0 by (rule int_le_real_power)
  moreover have "of_int c < y" and "y \<le> of_int (c + 1)"
    unfolding c_def using ceiling_correct [of y] by simp_all
  ultimately have lo: "(2::real) ^ nat (m - 1) < y" and hi: "y \<le> (2::real) ^ nat m"
    by linarith+
  have p1: "1 / (2::real) ^ nat m \<le> x"
    using hi assms(1) by (simp add: y_def field_simps)
  have p2: "x < 1 / (2::real) ^ nat (m - 1)"
    using lo assms(1) by (simp add: y_def field_simps)
  have "(2::real) powr (of_int (- m)) = 1 / 2 ^ nat m"
    using m two_powr_nonpos [of "- m"] by simp
  moreover have "(2::real) powr (of_int (- m + 1)) = 1 / 2 ^ nat (m - 1)"
    using m two_powr_nonpos [of "- m + 1"] by simp
  ultimately have "(2::real) powr (of_int (- m)) \<le> x \<and> x < 2 powr (of_int (- m + 1))"
    using p1 p2 by (simp only:)
  then have "\<lfloor>log 2 x\<rfloor> = - m"
    using assms by (subst floor_log_eq_powr_iff) simp_all
  then show ?thesis
    by (simp add: m_def c_def y_def)
qed

text \<open>The exponent computed from bit lengths is the binary exponent.\<close>

lemma fp_exponent_log:
  assumes "r \<noteq> 0"
  shows "fp_exponent r = \<lfloor>log 2 \<bar>r\<bar>\<rfloor>"
proof (cases "1 \<le> \<bar>r\<bar>")
  case True
  then show ?thesis
    by (simp add: fp_exponent_def floor_log2_bitlen)
next
  case False
  then have "0 < \<bar>r\<bar>" "\<bar>r\<bar> < 1" using assms by simp_all
  then show ?thesis
    using False by (simp add: fp_exponent_def floor_log2_bitlen_inverse)
qed

text \<open>
  \<open>0\<close> and \<open>1\<close> are \<^verbatim>\<open>float32\<close> numbers, so inverting a binary cell is exact. Other
  cells round: \<open>1 - 1 / 2 ^ 30\<close> is nearer to \<open>1\<close> than to \<open>1 - 1 / 2 ^ 24\<close>, the
  \<^verbatim>\<open>float32\<close> next below \<open>1\<close>, and \<open>1 - 1 / 2 ^ 25\<close> lies halfway between the two and
  goes to the even one.
\<close>

lemma f32_round_0 [simp]: "f32_round 0 = 0"
  by (simp add: f32_round_def fp_round_def)

lemma f32_round_1 [simp]: "f32_round 1 = 1"
  by code_simp

lemma f32_round_examples:
  "f32_round (1 - 1 / 2 ^ 30) = 1"
  "f32_round (1 - 1 / 2 ^ 24) = 1 - 1 / 2 ^ 24"
  "f32_round (1 - 1 / 2 ^ 25) = 1"
  "f32_round (1 / 10) = 13421773 / 2 ^ 27"
  by code_simp+

section \<open>Properties of the flip\<close>

lemma and_then_Inr [simp]: "and_then (Inr x) k = k x"
  by (simp add: and_then_def)

lemma and_then_Inl [simp]: "and_then (Inl e) k = Inl e"
  by (simp add: and_then_def)

lemma length_zeros_like [simp]: "length (zeros_like t) = length t"
  by (simp add: zeros_like_def)

lemma upt_six: "[0..<6] = [0, 1, 2, 3, 4, 5::nat]"
  by code_simp

lemma flip_loop_six:
  "flip_loop t [0..<6] z =
     and_then (flip_step t 0 z) (\<lambda>z. and_then (flip_step t 1 z) (\<lambda>z.
     and_then (flip_step t 2 z) (\<lambda>z. and_then (flip_step t 3 z) (\<lambda>z.
     and_then (flip_step t 4 z) (\<lambda>z. flip_step t 5 z)))))"
  by (simp add: upt_six and_then_def split: sum.splits)

lemma flip_step_ok:
  "i + 6 < length t \<Longrightarrow> length z = length t \<Longrightarrow>
   flip_step t i z = Inr (z[i := rev (t ! (i + 6)), i + 6 := rev (t ! i)])"
  by (simp add: flip_step_def get_plane_def set_plane_def np_flip_def)

lemma flip_step_fail: "\<not> i + 6 < length t \<Longrightarrow> flip_step t i z = Inl IndexError"
  by (simp add: flip_step_def get_plane_def)

text \<open>With twelve channels or more the colour-swapping loop runs through.\<close>

lemma flip_loop_ok:
  assumes "12 \<le> length t"
  shows "flip_loop t [0..<6] (zeros_like t) =
     Inr ((zeros_like t)[0 := rev (t ! 6), 6 := rev (t ! 0), 1 := rev (t ! 7), 7 := rev (t ! 1),
        2 := rev (t ! 8), 8 := rev (t ! 2), 3 := rev (t ! 9), 9 := rev (t ! 3),
        4 := rev (t ! 10), 10 := rev (t ! 4), 5 := rev (t ! 11), 11 := rev (t ! 5)])"
  using assms by (simp add: flip_loop_six flip_step_ok)

text \<open>With fewer than twelve channels one of its reads is out of range.\<close>

lemma flip_loop_fail:
  assumes "length t < 12" and "length z = length t"
  shows "flip_loop t [0..<6] z = Inl IndexError"
proof -
  show ?thesis
    using assms
    apply (simp add: flip_loop_six)
    apply (cases "0 + 6 < length t")
     apply (simp_all add: flip_step_ok flip_step_fail)
    apply (cases "1 + 6 < length t")
     apply (simp_all add: flip_step_ok flip_step_fail)
    apply (cases "2 + 6 < length t")
     apply (simp_all add: flip_step_ok flip_step_fail)
    apply (cases "3 + 6 < length t")
     apply (simp_all add: flip_step_ok flip_step_fail)
    apply (cases "4 + 6 < length t")
     apply (simp_all add: flip_step_ok flip_step_fail)
    done
qed

lemma flip_12:
  assumes "length t = 12"
  shows "flip_board_tensor t =
     Inr ((zeros_like t)[0 := rev (t ! 6), 6 := rev (t ! 0), 1 := rev (t ! 7), 7 := rev (t ! 1),
        2 := rev (t ! 8), 8 := rev (t ! 2), 3 := rev (t ! 9), 9 := rev (t ! 3),
        4 := rev (t ! 10), 10 := rev (t ! 4), 5 := rev (t ! 11), 11 := rev (t ! 5)])"
  using assms by (simp add: flip_board_tensor_def flip_loop_ok)

lemma flip_ge19:
  assumes "19 \<le> length t"
  shows "flip_board_tensor t =
     Inr ((zeros_like t)[0 := rev (t ! 6), 6 := rev (t ! 0), 1 := rev (t ! 7), 7 := rev (t ! 1),
        2 := rev (t ! 8), 8 := rev (t ! 2), 3 := rev (t ! 9), 9 := rev (t ! 3),
        4 := rev (t ! 10), 10 := rev (t ! 4), 5 := rev (t ! 11), 11 := rev (t ! 5),
        12 := one_minus (t ! 12), 13 := t ! 15, 14 := t ! 16, 15 := t ! 13, 16 := t ! 14,
        17 := rev (t ! 17), 18 := t ! 18])"
  using assms
  by (simp add: flip_board_tensor_def flip_loop_ok copy_plane_def get_plane_def
      set_plane_def np_flip_def)

lemma flip_fail_lt12: "length t < 12 \<Longrightarrow> flip_board_tensor t = Inl IndexError"
  by (simp add: flip_board_tensor_def flip_loop_fail)

lemma flip_fail_13_16:
  "12 < length t \<Longrightarrow> length t < 17 \<Longrightarrow> flip_board_tensor t = Inl IndexError"
  by (auto simp add: flip_board_tensor_def flip_loop_ok copy_plane_def get_plane_def
      set_plane_def)

lemma flip_ok_ge17:
  "17 \<le> length t \<Longrightarrow> \<exists>y. flip_board_tensor t = Inr y \<and> length y = length t"
  by (auto simp add: flip_board_tensor_def flip_loop_ok copy_plane_def get_plane_def
      set_plane_def)

lemma list_of_12:
  "length (xs::'a list) = 12 \<Longrightarrow>
   \<exists>a0 a1 a2 a3 a4 a5 a6 a7 a8 a9 a10 a11. xs = [a0, a1, a2, a3, a4, a5, a6, a7, a8, a9, a10, a11]"
  by (simp add: numeral_eq_Suc length_Suc_conv) blast

lemma list_of_19:
  "length (xs::'a list) = 19 \<Longrightarrow>
   \<exists>a0 a1 a2 a3 a4 a5 a6 a7 a8 a9 a10 a11 a12 a13 a14 a15 a16 a17 a18.
      xs = [a0, a1, a2, a3, a4, a5, a6, a7, a8, a9, a10, a11, a12, a13, a14, a15, a16, a17, a18]"
  by (simp add: numeral_eq_Suc length_Suc_conv) blast

lemma flip_12_explicit:
  "flip_board_tensor [a0, a1, a2, a3, a4, a5, a6, a7, a8, a9, a10, a11] =
     Inr [rev a6, rev a7, rev a8, rev a9, rev a10, rev a11,
          rev a0, rev a1, rev a2, rev a3, rev a4, rev a5]"
  using flip_12 [of "[a0, a1, a2, a3, a4, a5, a6, a7, a8, a9, a10, a11]"]
  by (simp add: zeros_like_def)

lemma flip_19_explicit:
  "flip_board_tensor
     [a0, a1, a2, a3, a4, a5, a6, a7, a8, a9, a10, a11, a12, a13, a14, a15, a16, a17, a18] =
     Inr [rev a6, rev a7, rev a8, rev a9, rev a10, rev a11,
          rev a0, rev a1, rev a2, rev a3, rev a4, rev a5,
          one_minus a12, a15, a16, a13, a14, rev a17, a18]"
  using flip_ge19
    [of "[a0, a1, a2, a3, a4, a5, a6, a7, a8, a9, a10, a11, a12, a13, a14, a15, a16, a17, a18]"]
  by (simp add: zeros_like_def)

lemma one_minus_exact:
  assumes "binary_plane p"
  shows "one_minus p = map (map (\<lambda>v. 1 - v)) p"
proof -
  have cell: "f32_round (1 - v) = 1 - v" if "v = 0 \<or> v = 1" for v :: real
    using that by auto
  have "map (\<lambda>v. f32_round (1 - v)) r = map (\<lambda>v. 1 - v) r" if "r \<in> set p" for r
    using assms that cell by (intro map_cong) (auto simp: binary_plane_def list_all_iff)
  then show ?thesis
    by (simp add: one_minus_def)
qed

lemma one_minus_binary:
  assumes "binary_plane p"
  shows "one_minus (one_minus p) = p"
proof -
  have cell: "f32_round (1 - f32_round (1 - v)) = v" if "v = 0 \<or> v = 1" for v :: real
    using that by auto
  have "map (\<lambda>v. f32_round (1 - f32_round (1 - v))) r = r" if "r \<in> set p" for r
    using assms that cell by (intro map_idI) (auto simp: binary_plane_def list_all_iff)
  then show ?thesis
    by (simp add: one_minus_def comp_def map_idI)
qed



text \<open>
  C9: on an array of 13, 14, 15 or 16 channels the flip returns nothing: the branch
  for more than 12 channels reads or writes a channel up to 16 that the array does
  not have, and the index error is raised.
\<close>

theorem flip_partial_extended_raises:
  assumes "13 \<le> length x" and "length x \<le> 16"
  shows "flip_board_tensor x = Inl IndexError"
  using assms by (simp add: flip_fail_13_16)

theorem flip_partial_extended_raises_witness:
  "13 \<le> length (zeros 14 8 8) \<and> length (zeros 14 8 8) \<le> 16 \<and>
   flip_board_tensor (zeros 14 8 8) = Inl IndexError"
proof -
  have lo: "13 \<le> length (zeros 14 8 8)" and hi: "length (zeros 14 8 8) \<le> 16"
    by (simp_all add: zeros_def)
  show ?thesis
    using lo hi flip_partial_extended_raises [OF lo hi] by blast
qed

text \<open>
  C2: flipping a valid array twice gives the array back, channel for channel. For
  channel 12 this is the double inversion \<open>1 - (1 - v)\<close> on cells that are \<open>0\<close> or \<open>1\<close>.
\<close>

theorem flip_involution:
  assumes "valid_array x"
  shows "\<exists>y. flip_board_tensor x = Inr y \<and> flip_board_tensor y = Inr x"
proof -
  from assms have "length x = 12 \<or> length x = 19"
    by (auto simp: valid_array_def is_array_def)
  then show ?thesis
  proof
    assume "length x = 12"
    then show ?thesis
      using list_of_12 [of x] by (auto simp: flip_12_explicit)
  next
    assume len: "length x = 19"
    then obtain a0 a1 a2 a3 a4 a5 a6 a7 a8 a9 a10 a11 a12 a13 a14 a15 a16 a17 a18
      where x: "x = [a0, a1, a2, a3, a4, a5, a6, a7, a8, a9, a10, a11,
                     a12, a13, a14, a15, a16, a17, a18]"
      using list_of_19 [of x] by blast
    from assms have "binary_plane a12"
      by (simp add: valid_array_def x)
    then show ?thesis
      by (simp add: x flip_19_explicit one_minus_binary)
  qed
qed

theorem flip_involution_witness:
  "valid_array (zeros 19 8 8) \<and>
   (\<exists>y. flip_board_tensor (zeros 19 8 8) = Inr y \<and> flip_board_tensor y = Inr (zeros 19 8 8))"
proof -
  have v: "valid_array (zeros 19 8 8)"
    by code_simp
  show ?thesis
    using v flip_involution [OF v] by blast
qed

section \<open>Properties of the encoder\<close>

lemma is_array_nth:
  "is_array c h w t \<longleftrightarrow>
     length t = c \<and> (\<forall>i<c. length (t ! i) = h \<and> (\<forall>j<h. length (t ! i ! j) = w))"
  by (auto simp: is_array_def list_all_length)

lemma readable_nth:
  "readable t \<longleftrightarrow>
     12 \<le> length t \<and> (\<forall>c<12. 8 \<le> length (t ! c) \<and> (\<forall>r<8. 8 \<le> length (t ! c ! r)))"
proof -
  have rows: "list_all (\<lambda>r. 8 \<le> length r) (take 8 p) \<longleftrightarrow> (\<forall>r<8. 8 \<le> length (p ! r))"
    if "8 \<le> length p" for p :: plane
    using that by (simp add: list_all_length min_absorb2)
  have planes: "list_all (\<lambda>p. 8 \<le> length p \<and> list_all (\<lambda>r. 8 \<le> length r) (take 8 p)) (take 12 t) \<longleftrightarrow>
      (\<forall>c<12. 8 \<le> length (t ! c) \<and> list_all (\<lambda>r. 8 \<le> length r) (take 8 (t ! c)))"
    if "12 \<le> length t"
    using that by (simp add: list_all_length min_absorb2)
  show ?thesis
    unfolding readable_def using planes rows by auto
qed

lemma is_array_zeros: "is_array c h w (zeros c h w)"
  by (simp add: is_array_nth zeros_def)

lemma zeros_nth: "c < C \<Longrightarrow> r < H \<Longrightarrow> f < W \<Longrightarrow> zeros C H W ! c ! r ! f = 0"
  by (simp add: zeros_def)

lemma set_cell_ok:
  assumes "is_array C H W t" "c < C" "r < H" "f < W"
  shows "set_cell t c r f v = Inr (t[c := (t ! c)[r := (t ! c ! r)[f := v]]])"
  using assms by (simp add: set_cell_def is_array_nth)

lemma is_array_update:
  assumes "is_array C H W t"
  shows "is_array C H W (t[c := (t ! c)[r := (t ! c ! r)[f := v]]])"
proof -
  have len: "length t = C" and planes: "\<And>i. i < C \<Longrightarrow> length (t ! i) = H"
    and rows: "\<And>i j. i < C \<Longrightarrow> j < H \<Longrightarrow> length (t ! i ! j) = W"
    using assms by (simp_all add: is_array_nth)
  have "length (t[c := (t ! c)[r := (t ! c ! r)[f := v]]] ! i) = H" if "i < C" for i
    using that len planes by (cases "i = c") simp_all
  moreover have "length (t[c := (t ! c)[r := (t ! c ! r)[f := v]]] ! i ! j) = W"
    if "i < C" "j < H" for i j
    using that len planes rows by (cases "i = c"; cases "j = r") simp_all
  ultimately show ?thesis
    using len by (simp add: is_array_nth)
qed

lemma nth_update_cell:
  assumes "is_array C H W t" "c' < C" "r' < H" "f' < W"
  shows "t[c := (t ! c)[r := (t ! c ! r)[f := v]]] ! c' ! r' ! f' =
           (if c' = c \<and> r' = r \<and> f' = f then v else t ! c' ! r' ! f')"
proof -
  have len: "length t = C" and planes: "\<And>i. i < C \<Longrightarrow> length (t ! i) = H"
    and rows: "\<And>i j. i < C \<Longrightarrow> j < H \<Longrightarrow> length (t ! i ! j) = W"
    using assms(1) by (simp_all add: is_array_nth)
  show ?thesis
    using assms(2-4) len planes rows
    by (cases "c' = c"; cases "r' = r"; cases "f' = f") simp_all
qed

lemma piece_channel_less: "piece_channel p < 12"
  by (cases p; cases "piece_type p"; cases "color p") (simp_all add: piece_channel_def)

lemma square_decompose:
  "r < 8 \<Longrightarrow> f < 8 \<Longrightarrow> (r = sq div 8 \<and> f = sq mod 8) \<longleftrightarrow> r * 8 + f = (sq::nat)"
  by auto

lemma board_to_tensor_loop_inv:
  assumes "is_array 12 8 8 t" and "\<forall>sq\<in>set sqs. sq < 64"
  shows "\<exists>t'. board_to_tensor_loop b sqs t = Inr t' \<and> is_array 12 8 8 t' \<and>
           (\<forall>c<12. \<forall>r<8. \<forall>f<8. t' ! c ! r ! f =
              (if r * 8 + f \<in> set sqs \<and> (\<exists>p. piece_at b (r * 8 + f) = Some p \<and> piece_channel p = c)
               then 1 else t ! c ! r ! f))"
  using assms
proof (induction sqs arbitrary: t)
  case Nil
  then show ?case by simp
next
  case (Cons sq sqs)
  have sq: "sq < 64" and rest: "\<forall>s\<in>set sqs. s < 64"
    using Cons.prems(2) by simp_all
  show ?case
  proof (cases "piece_at b sq")
    case None
    obtain t' where t': "board_to_tensor_loop b sqs t = Inr t'" "is_array 12 8 8 t'"
      "\<forall>c<12. \<forall>r<8. \<forall>f<8. t' ! c ! r ! f =
              (if r * 8 + f \<in> set sqs \<and> (\<exists>p. piece_at b (r * 8 + f) = Some p \<and> piece_channel p = c)
               then 1 else t ! c ! r ! f)"
      using Cons.IH [OF Cons.prems(1) rest] by blast
    show ?thesis
      using None t' by auto
  next
    case (Some p)
    let ?c = "piece_channel p" and ?r = "sq div 8" and ?f = "sq mod 8"
    let ?t1 = "t[?c := (t ! ?c)[?r := (t ! ?c ! ?r)[?f := 1]]]"
    have rf: "?r < 8" "?f < 8" using sq by auto
    have step: "set_cell t ?c ?r ?f 1 = Inr ?t1"
      using set_cell_ok [OF Cons.prems(1) piece_channel_less rf] .
    have arr1: "is_array 12 8 8 ?t1"
      using is_array_update [OF Cons.prems(1)] .
    obtain t' where t': "board_to_tensor_loop b sqs ?t1 = Inr t'" "is_array 12 8 8 t'"
      and cells: "\<forall>c<12. \<forall>r<8. \<forall>f<8. t' ! c ! r ! f =
              (if r * 8 + f \<in> set sqs \<and> (\<exists>p. piece_at b (r * 8 + f) = Some p \<and> piece_channel p = c)
               then 1 else ?t1 ! c ! r ! f)"
      using Cons.IH [OF arr1 rest] by blast
    have run: "board_to_tensor_loop b (sq # sqs) t = Inr t'"
      using Some step t'(1) by (simp add: square_rank_def square_file_def)
    have "t' ! c ! r ! f =
              (if r * 8 + f \<in> set (sq # sqs) \<and> (\<exists>p. piece_at b (r * 8 + f) = Some p \<and> piece_channel p = c)
               then 1 else t ! c ! r ! f)" if "c < 12" "r < 8" "f < 8" for c r f
    proof -
      have a: "t' ! c ! r ! f =
              (if r * 8 + f \<in> set sqs \<and> (\<exists>p. piece_at b (r * 8 + f) = Some p \<and> piece_channel p = c)
               then 1 else ?t1 ! c ! r ! f)"
        using cells that by blast
      have b: "?t1 ! c ! r ! f = (if c = ?c \<and> r = ?r \<and> f = ?f then 1 else t ! c ! r ! f)"
        using nth_update_cell [OF Cons.prems(1) that] .
      have c: "(r = ?r \<and> f = ?f) \<longleftrightarrow> r * 8 + f = sq"
        using square_decompose [OF that(2,3)] .
      show ?thesis
        unfolding a b using c Some by auto
    qed
    then show ?thesis
      using run t'(2) by blast
  qed
qed

lemma board_to_tensor_cells:
  "\<exists>t. board_to_tensor b = Inr t \<and> is_array 12 8 8 t \<and>
       (\<forall>c<12. \<forall>r<8. \<forall>f<8. t ! c ! r ! f =
          (if \<exists>p. piece_at b (r * 8 + f) = Some p \<and> piece_channel p = c then 1 else 0))"
proof -
  have sqs: "\<forall>sq\<in>set SQUARES. sq < 64"
    by (simp add: SQUARES_def)
  have mem: "r * 8 + f \<in> set SQUARES" if "r < 8" "f < 8" for r f :: nat
    using that by (simp add: SQUARES_def)
  obtain t where t: "board_to_tensor_loop b SQUARES (zeros 12 8 8) = Inr t" "is_array 12 8 8 t"
    and cells: "\<forall>c<12. \<forall>r<8. \<forall>f<8. t ! c ! r ! f =
              (if r * 8 + f \<in> set SQUARES \<and> (\<exists>p. piece_at b (r * 8 + f) = Some p \<and> piece_channel p = c)
               then 1 else zeros 12 8 8 ! c ! r ! f)"
    using board_to_tensor_loop_inv [OF is_array_zeros sqs, of b] by blast
  show ?thesis
    using t cells mem by (auto simp: board_to_tensor_def zeros_nth)
qed

section \<open>Properties of the decoder\<close>

lemma active_iff:
  "(\<exists>r<8. \<exists>f<8. sq = r * 8 + f \<and> t ! c ! r ! f > 0.5) \<longleftrightarrow> active t c sq"
proof
  assume "\<exists>r<8. \<exists>f<8. sq = r * 8 + f \<and> t ! c ! r ! f > 0.5"
  then obtain r f where "r < 8" "f < 8" "sq = r * 8 + f" "t ! c ! r ! f > 0.5" by blast
  then show "active t c sq"
    by (simp add: active_def square_rank_def square_file_def)
next
  assume a: "active t c sq"
  then have "sq div 8 < 8" "sq mod 8 < 8" "sq = sq div 8 * 8 + sq mod 8"
    by (auto simp: active_def)
  then show "\<exists>r<8. \<exists>f<8. sq = r * 8 + f \<and> t ! c ! r ! f > 0.5"
    using a unfolding active_def square_rank_def square_file_def by blast
qed

lemma board_update_cong:
  "(\<And>sq. g sq = h sq) \<Longrightarrow> b\<lparr>piece_at := g\<rparr> = b\<lparr>piece_at := h\<rparr>"
proof -
  assume "\<And>sq. g sq = h sq"
  then have "g = h" by (simp add: fun_eq_iff)
  then show ?thesis by simp
qed

lemma col_loop_ok:
  assumes "c < length t" "r < length (t ! c)" "\<forall>f\<in>set cols. f < length (t ! c ! r)"
  shows "col_loop t c pt cl r cols b =
     Inr (b\<lparr>piece_at := \<lambda>sq. if \<exists>f\<in>set cols. sq = r * 8 + f \<and> t ! c ! r ! f > 0.5
                              then Some (Piece pt cl) else piece_at b sq\<rparr>)"
  using assms
proof (induction cols arbitrary: b)
  case Nil
  then show ?case by simp
next
  case (Cons f cols)
  have g: "get_cell t c r f = Inr (t ! c ! r ! f)"
    using Cons.prems by (simp add: get_cell_def)
  show ?case
    using Cons.prems
    by (auto simp: g Cons.IH set_piece_at_def square_def intro!: board_update_cong)
qed

lemma row_loop_ok:
  assumes "c < length t" "\<forall>r\<in>set rows. r < length (t ! c) \<and> 8 \<le> length (t ! c ! r)"
  shows "row_loop t c pt cl rows b =
     Inr (b\<lparr>piece_at := \<lambda>sq. if \<exists>r\<in>set rows. \<exists>f<8. sq = r * 8 + f \<and> t ! c ! r ! f > 0.5
                              then Some (Piece pt cl) else piece_at b sq\<rparr>)"
  using assms
proof (induction rows arbitrary: b)
  case Nil
  then show ?case by simp
next
  case (Cons r rows)
  have cols: "\<forall>f\<in>set [0..<8]. f < length (t ! c ! r)"
    using Cons.prems by auto
  have r: "r < length (t ! c)" using Cons.prems by simp
  show ?case
    using Cons.prems
    by (auto simp: col_loop_ok [OF Cons.prems(1) r cols] Cons.IH intro!: board_update_cong)
qed

lemma less_12_cases:
  "c < 12 \<Longrightarrow> c = 0 \<or> c = 1 \<or> c = 2 \<or> c = 3 \<or> c = 4 \<or> c = 5 \<or> c = 6 \<or> c = 7 \<or> c = 8 \<or>
     c = 9 \<or> c = 10 \<or> c = (11::nat)"
  by arith

lemma channel_to_piece_Some: "c < 12 \<Longrightarrow> \<exists>pt cl. channel_to_piece c = Some (pt, cl)"
  using less_12_cases [of c] by (auto simp: channel_to_piece_def)

lemma channel_to_piece_channel:
  "channel_to_piece (piece_channel p) = Some (piece_type p, color p)"
  by (cases p; cases "piece_type p"; cases "color p")
    (simp_all add: piece_channel_def channel_to_piece_def)

lemma channel_piece_channel: "channel_piece (piece_channel p) = Some p"
  by (simp add: channel_piece_def channel_to_piece_channel)

lemma channel_loop_ok:
  assumes "readable t" and "\<forall>c\<in>set cs. c < 12"
  shows "\<exists>m. channel_loop t cs b = Inr (b\<lparr>piece_at := m\<rparr>) \<and>
           (\<forall>sq. m sq = (case filter (\<lambda>c. active t c sq) (rev cs) of
                            [] \<Rightarrow> piece_at b sq | c # rest \<Rightarrow> channel_piece c))"
  using assms(2)
proof (induction cs arbitrary: b)
  case Nil
  show ?case
    by (intro exI [of _ "piece_at b"]) simp
next
  case (Cons c cs)
  have c: "c < 12" and rest: "\<forall>k\<in>set cs. k < 12"
    using Cons.prems by simp_all
  obtain pt cl where pc: "channel_to_piece c = Some (pt, cl)"
    using channel_to_piece_Some [OF c] by blast
  have len: "c < length t" and rows: "\<forall>r\<in>set [0..<8]. r < length (t ! c) \<and> 8 \<le> length (t ! c ! r)"
    using assms(1) c by (auto simp: readable_nth)
  let ?m1 = "\<lambda>sq. if active t c sq then Some (Piece pt cl) else piece_at b sq"
  have "row_loop t c pt cl [0..<8] b =
     Inr (b\<lparr>piece_at := \<lambda>sq. if \<exists>r\<in>set [0..<8]. \<exists>f<8. sq = r * 8 + f \<and> t ! c ! r ! f > 0.5
                              then Some (Piece pt cl) else piece_at b sq\<rparr>)"
    by (rule row_loop_ok [OF len rows])
  moreover have "(\<exists>r\<in>set [0..<8]. \<exists>f<8. sq = r * 8 + f \<and> t ! c ! r ! f > 0.5) \<longleftrightarrow> active t c sq" for sq
    using active_iff [of sq t c] by auto
  ultimately have row: "row_loop t c pt cl [0..<8] b = Inr (b\<lparr>piece_at := ?m1\<rparr>)"
    by simp
  obtain m where m: "channel_loop t cs (b\<lparr>piece_at := ?m1\<rparr>) = Inr (b\<lparr>piece_at := ?m1, piece_at := m\<rparr>)"
    and msq: "\<forall>sq. m sq = (case filter (\<lambda>c. active t c sq) (rev cs) of
                            [] \<Rightarrow> piece_at (b\<lparr>piece_at := ?m1\<rparr>) sq | c # rest \<Rightarrow> channel_piece c)"
    using Cons.IH [OF rest, of "b\<lparr>piece_at := ?m1\<rparr>"] by blast
  have run: "channel_loop t (c # cs) b = Inr (b\<lparr>piece_at := m\<rparr>)"
    using pc row m by simp
  have "m sq = (case filter (\<lambda>c. active t c sq) (rev (c # cs)) of
                            [] \<Rightarrow> piece_at b sq | c # rest \<Rightarrow> channel_piece c)" for sq
    using msq [rule_format, of sq] pc
    by (cases "filter (\<lambda>c. active t c sq) (rev cs)") (simp_all add: channel_piece_def)
  then show ?case
    using run by blast
qed

lemma tensor_to_board_ok:
  assumes "readable t"
  shows "\<exists>m. tensor_to_board t = Inr (Board_empty\<lparr>piece_at := m\<rparr>) \<and>
           (\<forall>sq. m sq = (case filter (\<lambda>c. active t c sq) (rev [0..<12]) of
                            [] \<Rightarrow> None | c # rest \<Rightarrow> channel_piece c))"
proof -
  have "\<forall>c\<in>set [0..<12]. c < 12" by simp
  then obtain m where run: "channel_loop t [0..<12] Board_empty = Inr (Board_empty\<lparr>piece_at := m\<rparr>)"
    and m: "\<forall>sq. m sq = (case filter (\<lambda>c. active t c sq) (rev [0..<12]) of
                            [] \<Rightarrow> piece_at Board_empty sq | c # rest \<Rightarrow> channel_piece c)"
    using channel_loop_ok [OF assms, of "[0..<12]" Board_empty] by blast
  have none: "piece_at Board_empty sq = None" for sq
    by (simp add: Board_empty_def)
  have "\<forall>sq. m sq = (case filter (\<lambda>c. active t c sq) (rev [0..<12]) of
                            [] \<Rightarrow> None | c # rest \<Rightarrow> channel_piece c)"
    using m by (simp add: none split: list.splits)
  then show ?thesis
    unfolding tensor_to_board_def using run by blast
qed

lemma is_array_readable: "is_array c h w t \<Longrightarrow> 12 \<le> c \<Longrightarrow> 8 \<le> h \<Longrightarrow> 8 \<le> w \<Longrightarrow> readable t"
  by (simp add: is_array_nth readable_nth)

lemma filter_head:
  assumes "filter P xs = c # rest"
  shows "P c \<and> c \<in> set xs"
proof -
  have "c \<in> set (filter P xs)" using assms by simp
  then show ?thesis by simp
qed

lemma encoded_active:
  assumes "is_array 12 8 8 t"
    and cells: "\<forall>c<12. \<forall>r<8. \<forall>f<8. t ! c ! r ! f =
          (if \<exists>q. piece_at p (r * 8 + f) = Some q \<and> piece_channel q = c then 1 else 0)"
    and "c < 12" "sq < 64"
  shows "active t c sq \<longleftrightarrow> (\<exists>q. piece_at p sq = Some q \<and> piece_channel q = c)"
proof -
  have rf: "sq div 8 < 8" "sq mod 8 < 8" and sq: "sq div 8 * 8 + sq mod 8 = sq"
    using assms(4) by auto
  have "t ! c ! (sq div 8) ! (sq mod 8) =
          (if \<exists>q. piece_at p sq = Some q \<and> piece_channel q = c then 1 else 0)"
    using cells assms(3) rf sq by simp
  then show ?thesis
    using assms(4) by (simp add: active_def square_rank_def square_file_def)
qed

text \<open>
  C1: encoding a position and decoding the result reproduces the piece on every one
  of the 64 squares: the same piece where the position has one, none where it has
  none. Both steps return (neither raises).
\<close>

theorem decode_encode_roundtrip:
  "\<exists>t b. board_to_tensor p = Inr t \<and> tensor_to_board t = Inr b \<and>
         (\<forall>sq<64. piece_at b sq = piece_at p sq)"
proof -
  obtain t where enc: "board_to_tensor p = Inr t" and arr: "is_array 12 8 8 t"
    and cells: "\<forall>c<12. \<forall>r<8. \<forall>f<8. t ! c ! r ! f =
          (if \<exists>q. piece_at p (r * 8 + f) = Some q \<and> piece_channel q = c then 1 else 0)"
    using board_to_tensor_cells [of p] by blast
  have "readable t"
    using is_array_readable [OF arr] by simp
  then obtain m where dec: "tensor_to_board t = Inr (Board_empty\<lparr>piece_at := m\<rparr>)"
    and m: "\<forall>sq. m sq = (case filter (\<lambda>c. active t c sq) (rev [0..<12]) of
                            [] \<Rightarrow> None | c # rest \<Rightarrow> channel_piece c)"
    using tensor_to_board_ok by blast
  have "m sq = piece_at p sq" if sq: "sq < 64" for sq
  proof (cases "filter (\<lambda>c. active t c sq) (rev [0..<12])")
    case Nil
    have "piece_at p sq = None"
    proof (rule ccontr)
      assume "piece_at p sq \<noteq> None"
      then obtain q where q: "piece_at p sq = Some q" by blast
      have "active t (piece_channel q) sq"
        using encoded_active [OF arr cells piece_channel_less sq] q by blast
      moreover have "piece_channel q \<in> set (rev [0..<12])"
        using piece_channel_less [of q] by simp
      ultimately have "\<exists>c\<in>set (rev [0..<12]). active t c sq"
        by blast
      then have "filter (\<lambda>c. active t c sq) (rev [0..<12]) \<noteq> []"
        unfolding filter_empty_conv by blast
      then show False using Nil by simp
    qed
    then show ?thesis
      using m Nil by simp
  next
    case (Cons c rest)
    have "active t c sq" and "c < 12"
      using filter_head [OF Cons] by simp_all
    then obtain q where "piece_at p sq = Some q" "piece_channel q = c"
      using encoded_active [OF arr cells _ sq] by blast
    then show ?thesis
      using m Cons channel_piece_channel [of q] by simp
  qed
  then show ?thesis
    using enc dec by simp
qed

theorem decode_encode_roundtrip_witness:
  "(28::nat) < 64 \<and>
   (\<exists>t b. board_to_tensor queen_e4 = Inr t \<and> tensor_to_board t = Inr b \<and>
          piece_at b 28 = Some (Piece QUEEN WHITE))"
proof -
  obtain t b where "board_to_tensor queen_e4 = Inr t" "tensor_to_board t = Inr b"
    and same: "\<forall>sq<64. piece_at b sq = piece_at queen_e4 sq"
    using decode_encode_roundtrip [of queen_e4] by blast
  moreover have "piece_at b 28 = piece_at queen_e4 28"
    using same by simp
  moreover have "piece_at queen_e4 28 = Some (Piece QUEEN WHITE)"
    by (simp add: queen_e4_def set_piece_at_def)
  ultimately show ?thesis
    by auto
qed

text \<open>
  C3: the basic encoding of a position is an array of shape \<open>(12, 8, 8)\<close> (of reals,
  the model of the float cells) in which every cell is \<open>0\<close> or \<open>1\<close>, and where a cell
  is \<open>1\<close> the same (rank, file) cell of every other channel is \<open>0\<close>.
\<close>

theorem encode_basic_one_hot:
  "\<exists>t. board_to_tensor p = Inr t \<and> is_array 12 8 8 t \<and>
       (\<forall>c<12. \<forall>r<8. \<forall>f<8.
          (t ! c ! r ! f = 0 \<or> t ! c ! r ! f = 1) \<and>
          (t ! c ! r ! f = 1 \<longrightarrow> (\<forall>k<12. k \<noteq> c \<longrightarrow> t ! k ! r ! f = 0)))"
proof -
  obtain t where enc: "board_to_tensor p = Inr t" and arr: "is_array 12 8 8 t"
    and cells: "\<forall>c<12. \<forall>r<8. \<forall>f<8. t ! c ! r ! f =
          (if \<exists>q. piece_at p (r * 8 + f) = Some q \<and> piece_channel q = c then 1 else 0)"
    using board_to_tensor_cells [of p] by blast
  have "(t ! c ! r ! f = 0 \<or> t ! c ! r ! f = 1) \<and>
          (t ! c ! r ! f = 1 \<longrightarrow> (\<forall>k<12. k \<noteq> c \<longrightarrow> t ! k ! r ! f = 0))"
    if "c < 12" "r < 8" "f < 8" for c r f
  proof -
    have here: "t ! c ! r ! f =
          (if \<exists>q. piece_at p (r * 8 + f) = Some q \<and> piece_channel q = c then 1 else 0)"
      using cells that by blast
    have other: "t ! k ! r ! f = 0" if "k < 12" "k \<noteq> c" "t ! c ! r ! f = 1" for k
    proof -
      have "\<exists>q. piece_at p (r * 8 + f) = Some q \<and> piece_channel q = c"
        using here that(3) by (auto split: if_splits)
      then have "\<not> (\<exists>q. piece_at p (r * 8 + f) = Some q \<and> piece_channel q = k)"
        using that(2) by auto
      moreover have "t ! k ! r ! f =
          (if \<exists>q. piece_at p (r * 8 + f) = Some q \<and> piece_channel q = k then 1 else 0)"
        using cells \<open>k < 12\<close> \<open>r < 8\<close> \<open>f < 8\<close> by blast
      ultimately show ?thesis by simp
    qed
    show ?thesis
      using here other by auto
  qed
  then show ?thesis
    using enc arr by blast
qed

theorem encode_basic_one_hot_witness:
  "\<exists>t. board_to_tensor queen_e4 = Inr t \<and> is_array 12 8 8 t \<and>
       t ! 4 ! 3 ! 4 = 1 \<and> t ! 0 ! 3 ! 4 = 0"
proof -
  obtain t where enc: "board_to_tensor queen_e4 = Inr t" "is_array 12 8 8 t"
    and cells: "\<forall>c<12. \<forall>r<8. \<forall>f<8.
          (t ! c ! r ! f = 0 \<or> t ! c ! r ! f = 1) \<and>
          (t ! c ! r ! f = 1 \<longrightarrow> (\<forall>k<12. k \<noteq> c \<longrightarrow> t ! k ! r ! f = 0))"
    using encode_basic_one_hot [of queen_e4] by blast
  obtain t' where enc': "board_to_tensor queen_e4 = Inr t'"
    and cells': "\<forall>c<12. \<forall>r<8. \<forall>f<8. t' ! c ! r ! f =
          (if \<exists>q. piece_at queen_e4 (r * 8 + f) = Some q \<and> piece_channel q = c then 1 else 0)"
    using board_to_tensor_cells [of queen_e4] by blast
  have same: "t' = t"
    using enc(1) enc' by simp
  have "t ! 4 ! 3 ! 4 =
          (if \<exists>q. piece_at queen_e4 (3 * 8 + 4) = Some q \<and> piece_channel q = 4 then 1 else 0)"
    using cells' [rule_format, of 4 3 4] same by simp
  then have queen: "t ! 4 ! 3 ! 4 = 1"
    by (simp add: queen_e4_def set_piece_at_def piece_channel_def)
  have "t ! 4 ! 3 ! 4 = 1 \<longrightarrow> (\<forall>k<12. k \<noteq> 4 \<longrightarrow> t ! k ! 3 ! 4 = 0)"
    using cells [rule_format, of 4 3 4] by simp
  then have "t ! 0 ! 3 ! 4 = 0"
    using queen by simp
  then show ?thesis
    using enc queen by blast
qed

lemma upt_split:
  assumes "c < n"
  shows "[0..<n] = [0..<c] @ c # [Suc c..<n]"
proof -
  have "[0..<c + (n - c)] = [0..<c] @ [c..<c + (n - c)]"
    by (rule upt_add_eq_append) simp
  moreover have "[c..<c + (n - c)] = c # [Suc c..<n]"
    using assms by (simp add: upt_conv_Cons)
  ultimately show ?thesis
    using assms by simp
qed

text \<open>
  C5: in an array of shape \<open>(12, 8, 8)\<close> in which two channels or more exceed \<open>0.5\<close> at
  one (rank, file) cell, decoding raises nothing and puts on that square the piece of
  the highest such channel: \<open>c\<close> is active there, a lower channel \<open>c'\<close> is too, and no
  channel above \<open>c\<close> is.
\<close>

theorem decode_multi_hot_last_wins:
  assumes "is_array 12 8 8 x" and "r < 8" and "f < 8" and "c < 12" and "c' < c"
    and "x ! c' ! r ! f > 0.5" and "x ! c ! r ! f > 0.5"
    and "\<forall>k<12. c < k \<longrightarrow> \<not> x ! k ! r ! f > 0.5"
  shows "\<exists>b pt cl. tensor_to_board x = Inr b \<and> channel_to_piece c = Some (pt, cl) \<and>
           piece_at b (square f r) = Some (Piece pt cl)"
proof -
  have "readable x"
    using is_array_readable [OF assms(1)] by simp
  then obtain m where dec: "tensor_to_board x = Inr (Board_empty\<lparr>piece_at := m\<rparr>)"
    and m: "\<forall>sq. m sq = (case filter (\<lambda>c. active x c sq) (rev [0..<12]) of
                            [] \<Rightarrow> None | c # rest \<Rightarrow> channel_piece c)"
    using tensor_to_board_ok by blast
  let ?sq = "square f r"
  have sq: "?sq < 64" "square_rank ?sq = r" "square_file ?sq = f"
    using assms(2,3) by (simp_all add: square_def square_rank_def square_file_def)
  have act: "active x k ?sq \<longleftrightarrow> x ! k ! r ! f > 0.5" for k
    using sq by (simp add: active_def)
  have above: "filter (\<lambda>k. active x k ?sq) (rev [Suc c..<12]) = []"
    using assms(8) by (auto simp: filter_empty_conv act)
  have "filter (\<lambda>k. active x k ?sq) (rev [0..<12]) =
          c # filter (\<lambda>k. active x k ?sq) (rev [0..<c])"
    using above assms(7) by (simp add: upt_split [OF assms(4)] act)
  then have "m ?sq = channel_piece c"
    using m by simp
  moreover obtain pt cl where "channel_to_piece c = Some (pt, cl)"
    using channel_to_piece_Some [OF assms(4)] by blast
  ultimately show ?thesis
    using dec by (auto simp: channel_piece_def)
qed

theorem decode_multi_hot_last_wins_witness:
  "is_array 12 8 8 multi_hot \<and>
   multi_hot ! 0 ! 0 ! 0 > 0.5 \<and> multi_hot ! 5 ! 0 ! 0 > 0.5 \<and>
   multi_hot ! 6 ! 0 ! 0 = 0 \<and> multi_hot ! 7 ! 0 ! 0 = 0 \<and> multi_hot ! 8 ! 0 ! 0 = 0 \<and>
   multi_hot ! 9 ! 0 ! 0 = 0 \<and> multi_hot ! 10 ! 0 ! 0 = 0 \<and> multi_hot ! 11 ! 0 ! 0 = 0 \<and>
   (\<exists>b. tensor_to_board multi_hot = Inr b \<and> piece_at b (square 0 0) = Some (Piece KING WHITE))"
proof -
  have arr: "is_array 12 8 8 multi_hot"
    by code_simp
  have lo: "multi_hot ! 0 ! 0 ! 0 > 0.5" and hi: "multi_hot ! 5 ! 0 ! 0 > 0.5"
    by (simp_all add: multi_hot_def a1_plane_def nth_append)
  have zero: "multi_hot ! 6 ! 0 ! 0 = 0" "multi_hot ! 7 ! 0 ! 0 = 0" "multi_hot ! 8 ! 0 ! 0 = 0"
    "multi_hot ! 9 ! 0 ! 0 = 0" "multi_hot ! 10 ! 0 ! 0 = 0" "multi_hot ! 11 ! 0 ! 0 = 0"
    by (simp_all add: multi_hot_def nth_append)
  have above: "\<forall>k<12. 5 < k \<longrightarrow> \<not> multi_hot ! k ! 0 ! 0 > 0.5"
    by (simp add: multi_hot_def nth_append)
  have "\<exists>b pt cl. tensor_to_board multi_hot = Inr b \<and> channel_to_piece 5 = Some (pt, cl) \<and>
           piece_at b (square 0 0) = Some (Piece pt cl)"
    using decode_multi_hot_last_wins [OF arr _ _ _ _ lo hi above] by simp
  moreover have "channel_to_piece 5 = Some (KING, WHITE)"
    by (simp add: channel_to_piece_def)
  ultimately show ?thesis
    using arr lo hi zero by auto
qed

text \<open>
  C8: two arrays of shape \<open>(19, 8, 8)\<close> that agree on channels 0 to 11 decode to the
  same position, pieces and game state alike, whatever channels 12 to 18 hold.
\<close>

theorem decode_ignores_extended_channels:
  assumes "is_array 19 8 8 x" and "is_array 19 8 8 y" and "take 12 x = take 12 y"
  shows "\<exists>b. tensor_to_board x = Inr b \<and> tensor_to_board y = Inr b"
proof -
  have rx: "readable x" and ry: "readable y"
    using is_array_readable [OF assms(1)] is_array_readable [OF assms(2)] by simp_all
  obtain m where decx: "tensor_to_board x = Inr (Board_empty\<lparr>piece_at := m\<rparr>)"
    and m: "\<forall>sq. m sq = (case filter (\<lambda>c. active x c sq) (rev [0..<12]) of
                            [] \<Rightarrow> None | c # rest \<Rightarrow> channel_piece c)"
    using tensor_to_board_ok [OF rx] by blast
  obtain n where decy: "tensor_to_board y = Inr (Board_empty\<lparr>piece_at := n\<rparr>)"
    and n: "\<forall>sq. n sq = (case filter (\<lambda>c. active y c sq) (rev [0..<12]) of
                            [] \<Rightarrow> None | c # rest \<Rightarrow> channel_piece c)"
    using tensor_to_board_ok [OF ry] by blast
  have same: "x ! c = y ! c" if "c < 12" for c
  proof -
    have "take 12 x ! c = x ! c" "take 12 y ! c = y ! c"
      using that by simp_all
    then show ?thesis using assms(3) by simp
  qed
  have "filter (\<lambda>c. active x c sq) (rev [0..<12]) = filter (\<lambda>c. active y c sq) (rev [0..<12])" for sq
    by (rule filter_cong) (auto simp: active_def same)
  then have "m sq = n sq" for sq
    using m n by simp
  then have "m = n" by (simp add: fun_eq_iff)
  then show ?thesis
    using decx decy by simp
qed

theorem decode_ignores_extended_channels_witness:
  "is_array 19 8 8 (zeros 19 8 8) \<and>
   is_array 19 8 8 ((zeros 19 8 8)[12 := replicate 8 (replicate 8 1)]) \<and>
   take 12 (zeros 19 8 8) = take 12 ((zeros 19 8 8)[12 := replicate 8 (replicate 8 1)]) \<and>
   (zeros 19 8 8)[12 := replicate 8 (replicate 8 1)] \<noteq> zeros 19 8 8 \<and>
   (\<exists>b. tensor_to_board (zeros 19 8 8) = Inr b \<and>
        tensor_to_board ((zeros 19 8 8)[12 := replicate 8 (replicate 8 1)]) = Inr b)"
proof -
  have x: "is_array 19 8 8 (zeros 19 8 8)"
    by code_simp
  have y: "is_array 19 8 8 ((zeros 19 8 8)[12 := replicate 8 (replicate 8 1)])"
    by code_simp
  have same: "take 12 (zeros 19 8 8) = take 12 ((zeros 19 8 8)[12 := replicate 8 (replicate 8 1)])"
    by simp
  have differ: "(zeros 19 8 8)[12 := replicate 8 (replicate 8 1)] \<noteq> zeros 19 8 8"
    by code_simp
  show ?thesis
    using x y same differ decode_ignores_extended_channels [OF x y same] by blast
qed

section \<open>What the decoder reads and what it leaves alone\<close>

lemma get_cell_Inr:
  "get_cell t c r f = Inr v \<Longrightarrow> c < length t \<and> r < length (t ! c) \<and> f < length (t ! c ! r)"
  by (simp add: get_cell_def split: if_splits)

lemma get_cell_Inl: "get_cell t c r f = Inl e \<Longrightarrow> e = IndexError"
  by (simp add: get_cell_def split: if_splits)

lemma and_then_eq_Inr:
  "and_then m k = Inr y \<longleftrightarrow> (\<exists>x. m = Inr x \<and> k x = Inr y)"
  by (cases m) simp_all

lemma and_then_eq_Inl:
  "and_then m k = Inl e \<longleftrightarrow> m = Inl e \<or> (\<exists>x. m = Inr x \<and> k x = Inl e)"
  by (cases m) simp_all

lemma board_self: "\<exists>m. b = b\<lparr>piece_at := m\<rparr>"
  by (rule exI [of _ "piece_at b"]) simp

lemma col_loop_Inr:
  assumes "col_loop t c pt cl r cols b = Inr b'"
  shows "(\<exists>m. b' = b\<lparr>piece_at := m\<rparr>) \<and>
         (\<forall>f\<in>set cols. c < length t \<and> r < length (t ! c) \<and> f < length (t ! c ! r))"
  using assms
proof (induction cols arbitrary: b)
  case Nil
  then have "b' = b" by simp
  then show ?case using board_self [of b] by simp
next
  case (Cons f cols)
  then obtain v where v: "get_cell t c r f = Inr v"
    and rest: "col_loop t c pt cl r cols
         (if v > 0.5 then set_piece_at b (square f r) (Piece pt cl) else b) = Inr b'"
    by (auto simp: and_then_eq_Inr)
  from Cons.IH [OF rest] obtain m where
    m: "b' = (if v > 0.5 then set_piece_at b (square f r) (Piece pt cl) else b)\<lparr>piece_at := m\<rparr>"
    and rng: "\<forall>f\<in>set cols. c < length t \<and> r < length (t ! c) \<and> f < length (t ! c ! r)"
    by blast
  have "b' = b\<lparr>piece_at := m\<rparr>"
    using m by (simp add: set_piece_at_def split: if_splits)
  then show ?case
    using rng get_cell_Inr [OF v] by auto
qed

lemma col_loop_Inl: "col_loop t c pt cl r cols b = Inl e \<Longrightarrow> e = IndexError"
proof (induction cols arbitrary: b)
  case Nil
  then show ?case by simp
next
  case (Cons f cols)
  then show ?case
    by (auto simp: and_then_eq_Inl dest: get_cell_Inl)
qed

lemma row_loop_Inr:
  assumes "row_loop t c pt cl rows b = Inr b'"
  shows "(\<exists>m. b' = b\<lparr>piece_at := m\<rparr>) \<and>
         (\<forall>r\<in>set rows. \<forall>f<8. c < length t \<and> r < length (t ! c) \<and> f < length (t ! c ! r))"
  using assms
proof (induction rows arbitrary: b)
  case Nil
  then have "b' = b" by simp
  then show ?case using board_self [of b] by simp
next
  case (Cons r rows)
  then obtain b1 where b1: "col_loop t c pt cl r [0..<8] b = Inr b1"
    and rest: "row_loop t c pt cl rows b1 = Inr b'"
    by (auto simp: and_then_eq_Inr)
  from col_loop_Inr [OF b1] obtain m1 where m1: "b1 = b\<lparr>piece_at := m1\<rparr>"
    and rng1: "\<forall>f\<in>set [0..<8]. c < length t \<and> r < length (t ! c) \<and> f < length (t ! c ! r)"
    by blast
  from Cons.IH [OF rest] obtain m where m: "b' = b1\<lparr>piece_at := m\<rparr>"
    and rng: "\<forall>r\<in>set rows. \<forall>f<8. c < length t \<and> r < length (t ! c) \<and> f < length (t ! c ! r)"
    by blast
  have "b' = b\<lparr>piece_at := m\<rparr>"
    using m m1 by simp
  then show ?case
    using rng rng1 by auto
qed

lemma row_loop_Inl: "row_loop t c pt cl rows b = Inl e \<Longrightarrow> e = IndexError"
proof (induction rows arbitrary: b)
  case Nil
  then show ?case by simp
next
  case (Cons r rows)
  then show ?case
    by (auto simp: and_then_eq_Inl dest: col_loop_Inl)
qed

lemma channel_loop_Inr:
  assumes "channel_loop t cs b = Inr b'"
  shows "(\<exists>m. b' = b\<lparr>piece_at := m\<rparr>) \<and>
         (\<forall>c\<in>set cs. \<forall>r<8. \<forall>f<8. c < length t \<and> r < length (t ! c) \<and> f < length (t ! c ! r))"
  using assms
proof (induction cs arbitrary: b)
  case Nil
  then have "b' = b" by simp
  then show ?case using board_self [of b] by simp
next
  case (Cons c cs)
  then obtain pt cl b1 where "channel_to_piece c = Some (pt, cl)"
    and b1: "row_loop t c pt cl [0..<8] b = Inr b1"
    and rest: "channel_loop t cs b1 = Inr b'"
    by (auto simp: and_then_eq_Inr split: option.splits)
  from row_loop_Inr [OF b1] obtain m1 where m1: "b1 = b\<lparr>piece_at := m1\<rparr>"
    and rng1: "\<forall>r\<in>set [0..<8]. \<forall>f<8. c < length t \<and> r < length (t ! c) \<and> f < length (t ! c ! r)"
    by blast
  from Cons.IH [OF rest] obtain m where m: "b' = b1\<lparr>piece_at := m\<rparr>"
    and rng: "\<forall>c\<in>set cs. \<forall>r<8. \<forall>f<8. c < length t \<and> r < length (t ! c) \<and> f < length (t ! c ! r)"
    by blast
  have "b' = b\<lparr>piece_at := m\<rparr>"
    using m m1 by simp
  then show ?case
    using rng rng1 by auto
qed

lemma channel_loop_Inl:
  "channel_loop t cs b = Inl e \<Longrightarrow> \<forall>c\<in>set cs. c < 12 \<Longrightarrow> e = IndexError"
proof (induction cs arbitrary: b)
  case Nil
  then show ?case by simp
next
  case (Cons c cs)
  obtain pt cl where "channel_to_piece c = Some (pt, cl)"
    using channel_to_piece_Some [of c] Cons.prems(2) by auto
  then show ?case
    using Cons by (auto simp: and_then_eq_Inl dest: row_loop_Inl)
qed

lemma tensor_to_board_Inr:
  assumes "tensor_to_board t = Inr b"
  shows "(\<exists>m. b = Board_empty\<lparr>piece_at := m\<rparr>) \<and> readable t"
proof -
  have run: "channel_loop t [0..<12] Board_empty = Inr b"
    using assms by (simp add: tensor_to_board_def)
  from channel_loop_Inr [OF run]
  have m: "\<exists>m. b = Board_empty\<lparr>piece_at := m\<rparr>"
    and rng: "\<forall>c\<in>set [0..<12]. \<forall>r<8. \<forall>f<8. c < length t \<and> r < length (t ! c) \<and> f < length (t ! c ! r)"
    by blast+
  have "c < length t \<and> r < length (t ! c) \<and> f < length (t ! c ! r)" if "c < 12" "r < 8" "f < 8" for c r f
    using rng that by simp
  note in_rng = this
  have "12 \<le> length t"
    using in_rng [of 11 0 0] by simp
  moreover have "8 \<le> length (t ! c)" if "c < 12" for c
    using in_rng [of c 7 0] that by simp
  moreover have "8 \<le> length (t ! c ! r)" if "c < 12" "r < 8" for c r
    using in_rng [of c r 7] that by simp
  ultimately have "readable t"
    by (simp add: readable_nth)
  then show ?thesis using m by blast
qed

lemma tensor_to_board_Inl: "tensor_to_board t = Inl e \<Longrightarrow> e = IndexError"
  using channel_loop_Inl [of t "[0..<12]" Board_empty e] by (simp add: tensor_to_board_def)

section \<open>Shapes\<close>

lemma list_all_update: "list_all P xs \<Longrightarrow> P p \<Longrightarrow> list_all P (xs[i := p])"
  by (auto simp: list_all_iff dest!: subsetD [OF set_update_subset_insert])

lemma set_plane_arr:
  assumes "is_array c h w z" and "length p = h \<and> list_all (\<lambda>r. length r = w) p"
    and "set_plane z i p = Inr z'"
  shows "is_array c h w z'"
  using assms by (auto simp: set_plane_def is_array_def list_all_update split: if_splits)

lemma get_plane_arr:
  assumes "is_array c h w t" and "get_plane t i = Inr p"
  shows "length p = h \<and> list_all (\<lambda>r. length r = w) p"
  using assms by (auto simp: get_plane_def is_array_def list_all_length split: if_splits)

lemma np_flip_arr:
  "length p = h \<and> list_all (\<lambda>r. length r = w) p \<Longrightarrow>
   length (np_flip p) = h \<and> list_all (\<lambda>r. length r = w) (np_flip p)"
  by (simp add: np_flip_def list_all_iff)

lemma one_minus_arr:
  "length p = h \<and> list_all (\<lambda>r. length r = w) p \<Longrightarrow>
   length (one_minus p) = h \<and> list_all (\<lambda>r. length r = w) (one_minus p)"
  by (simp add: one_minus_def list_all_iff)

lemma zeros_like_arr: "is_array c h w t \<Longrightarrow> is_array c h w (zeros_like t)"
  by (simp add: is_array_def zeros_like_def list_all_iff)

lemma flip_step_arr:
  assumes "is_array c h w t" and "is_array c h w z" and "flip_step t i z = Inr z'"
  shows "is_array c h w z'"
proof -
  from assms(3) obtain p z1 q where p: "get_plane t (i + 6) = Inr p"
    and z1: "set_plane z i (np_flip p) = Inr z1"
    and q: "get_plane t i = Inr q"
    and z': "set_plane z1 (i + 6) (np_flip q) = Inr z'"
    by (auto simp: flip_step_def and_then_eq_Inr)
  have "is_array c h w z1"
    using set_plane_arr [OF assms(2) np_flip_arr [OF get_plane_arr [OF assms(1) p]] z1] .
  then show ?thesis
    using set_plane_arr [OF _ np_flip_arr [OF get_plane_arr [OF assms(1) q]] z'] by blast
qed

lemma flip_loop_arr:
  assumes "is_array c h w t"
  shows "is_array c h w z \<Longrightarrow> flip_loop t ns z = Inr z' \<Longrightarrow> is_array c h w z'"
proof (induction ns arbitrary: z)
  case Nil
  then show ?case by simp
next
  case (Cons i ns)
  from Cons.prems(2) obtain z1 where z1: "flip_step t i z = Inr z1"
    and rest: "flip_loop t ns z1 = Inr z'"
    by (auto simp: and_then_eq_Inr)
  show ?case
    using Cons.IH [OF flip_step_arr [OF assms Cons.prems(1) z1] rest] .
qed

lemma copy_plane_arr:
  assumes "is_array c h w t" and "is_array c h w z" and "copy_plane t i j z = Inr z'"
  shows "is_array c h w z'"
proof -
  from assms(3) obtain p where p: "get_plane t i = Inr p" and z': "set_plane z j p = Inr z'"
    by (auto simp: copy_plane_def and_then_eq_Inr)
  show ?thesis
    using set_plane_arr [OF assms(2) get_plane_arr [OF assms(1) p] z'] .
qed

lemma flip_arr:
  assumes arr: "is_array c h w t" and run: "flip_board_tensor t = Inr y"
  shows "is_array c h w y"
proof -
  from run obtain z0 where z0: "flip_loop t [0..<6] (zeros_like t) = Inr z0"
    and tail: "(if length t > 12 then
       and_then (get_plane t 12) (\<lambda>p.
       and_then (set_plane z0 12 (one_minus p)) (\<lambda>flipped.
       and_then (copy_plane t 15 13 flipped) (\<lambda>flipped.
       and_then (copy_plane t 16 14 flipped) (\<lambda>flipped.
       and_then (copy_plane t 13 15 flipped) (\<lambda>flipped.
       and_then (copy_plane t 14 16 flipped) (\<lambda>flipped.
       and_then (if length t > 17
                 then and_then (get_plane t 17) (\<lambda>p. set_plane flipped 17 (np_flip p))
                 else Inr flipped) (\<lambda>flipped.
       and_then (if length t > 18
                 then copy_plane t 18 18 flipped
                 else Inr flipped) Inr)))))))
     else Inr z0) = Inr y"
    unfolding flip_board_tensor_def and_then_eq_Inr by blast
  have a0: "is_array c h w z0"
    using flip_loop_arr [OF arr zeros_like_arr [OF arr] z0] .
  show ?thesis
  proof (cases "length t > 12")
    case False
    then show ?thesis using tail a0 by simp
  next
    case True
    with tail obtain p z1 z2 z3 z4 z5 z6 z7 where
      p: "get_plane t 12 = Inr p" and z1: "set_plane z0 12 (one_minus p) = Inr z1"
      and z2: "copy_plane t 15 13 z1 = Inr z2" and z3: "copy_plane t 16 14 z2 = Inr z3"
      and z4: "copy_plane t 13 15 z3 = Inr z4" and z5: "copy_plane t 14 16 z4 = Inr z5"
      and z6: "(if length t > 17
                 then and_then (get_plane t 17) (\<lambda>p. set_plane z5 17 (np_flip p))
                 else Inr z5) = Inr z6"
      and z7: "(if length t > 18 then copy_plane t 18 18 z6 else Inr z6) = Inr z7"
      and y: "y = z7"
      by (auto simp: and_then_eq_Inr)
    have a1: "is_array c h w z1"
      using set_plane_arr [OF a0 one_minus_arr [OF get_plane_arr [OF arr p]] z1] .
    have a5: "is_array c h w z5"
      using copy_plane_arr [OF arr copy_plane_arr [OF arr copy_plane_arr [OF arr
            copy_plane_arr [OF arr a1 z2] z3] z4] z5] .
    have a6: "is_array c h w z6"
    proof (cases "length t > 17")
      case True
      with z6 obtain q where q: "get_plane t 17 = Inr q" and s: "set_plane z5 17 (np_flip q) = Inr z6"
        by (auto simp: and_then_eq_Inr)
      show ?thesis
        using set_plane_arr [OF a5 np_flip_arr [OF get_plane_arr [OF arr q]] s] .
    next
      case False
      then show ?thesis using z6 a5 by simp
    qed
    have "is_array c h w z7"
      using z7 a6 copy_plane_arr [OF arr a6] by (auto split: if_splits)
    then show ?thesis using y by simp
  qed
qed

text \<open>
  The decoder reads the cells of channels 0 to 11, ranks 0 to 7 and files 0 to 7 and
  no other: two arrays it can read that agree on these cells have the same result.
\<close>

lemma decode_reads_block:
  assumes "readable x" and "readable y"
    and same: "\<forall>k<12. \<forall>r<8. \<forall>f<8. y ! k ! r ! f = x ! k ! r ! f"
  shows "tensor_to_board y = tensor_to_board x"
proof -
  obtain m where decx: "tensor_to_board x = Inr (Board_empty\<lparr>piece_at := m\<rparr>)"
    and m: "\<forall>sq. m sq = (case filter (\<lambda>c. active x c sq) (rev [0..<12]) of
                            [] \<Rightarrow> None | c # rest \<Rightarrow> channel_piece c)"
    using tensor_to_board_ok [OF assms(1)] by blast
  obtain n where decy: "tensor_to_board y = Inr (Board_empty\<lparr>piece_at := n\<rparr>)"
    and n: "\<forall>sq. n sq = (case filter (\<lambda>c. active y c sq) (rev [0..<12]) of
                            [] \<Rightarrow> None | c # rest \<Rightarrow> channel_piece c)"
    using tensor_to_board_ok [OF assms(2)] by blast
  have act: "active y k sq \<longleftrightarrow> active x k sq" if "k < 12" for k sq
  proof (cases "sq < 64")
    case True
    then have "sq div 8 < 8" "sq mod 8 < 8" by auto
    then have "y ! k ! (sq div 8) ! (sq mod 8) = x ! k ! (sq div 8) ! (sq mod 8)"
      using same that by blast
    then show ?thesis
      by (simp add: active_def square_rank_def square_file_def)
  next
    case False
    then show ?thesis by (simp add: active_def)
  qed
  have "filter (\<lambda>c. active y c sq) (rev [0..<12]) = filter (\<lambda>c. active x c sq) (rev [0..<12])"
    for sq
    by (rule filter_cong) (auto simp: act)
  then have "n sq = m sq" for sq
    using m n by simp
  then have "n = m" by (simp add: fun_eq_iff)
  then show ?thesis
    using decx decy by simp
qed

text \<open>
  C10: whatever the array holds, a position returned by the decoder has the game
  state of the cleared board: White to move, no castling right for either side, no
  en-passant square, halfmove clock zero. The decoder returns on every array of at
  least 12 channels, 8 ranks and 8 files.
\<close>

theorem decode_default_game_state:
  "(is_array c h w x \<and> 12 \<le> c \<and> 8 \<le> h \<and> 8 \<le> w \<longrightarrow> (\<exists>b. tensor_to_board x = Inr b)) \<and>
   (\<forall>b. tensor_to_board x = Inr b \<longrightarrow>
      turn b = WHITE \<and>
      \<not> has_kingside_castling_rights b WHITE \<and> \<not> has_queenside_castling_rights b WHITE \<and>
      \<not> has_kingside_castling_rights b BLACK \<and> \<not> has_queenside_castling_rights b BLACK \<and>
      ep_square b = None \<and> halfmove_clock b = 0)"
proof (intro conjI impI allI)
  assume "is_array c h w x \<and> 12 \<le> c \<and> 8 \<le> h \<and> 8 \<le> w"
  then have "readable x"
    using is_array_readable by blast
  then show "\<exists>b. tensor_to_board x = Inr b"
    using tensor_to_board_ok by blast
next
  fix b
  assume "tensor_to_board x = Inr b"
  then obtain m where b: "b = Board_empty\<lparr>piece_at := m\<rparr>"
    using tensor_to_board_Inr by blast
  show "turn b = WHITE" "\<not> has_kingside_castling_rights b WHITE"
    "\<not> has_queenside_castling_rights b WHITE" "\<not> has_kingside_castling_rights b BLACK"
    "\<not> has_queenside_castling_rights b BLACK" "ep_square b = None" "halfmove_clock b = 0"
    by (simp_all add: b Board_empty_def)
qed

theorem decode_default_game_state_witness:
  "is_array 12 8 8 multi_hot \<and> (12::nat) \<le> 12 \<and> (8::nat) \<le> 8 \<and>
   (\<exists>b. tensor_to_board multi_hot = Inr b \<and> turn b = WHITE \<and>
      \<not> has_kingside_castling_rights b WHITE \<and> \<not> has_queenside_castling_rights b WHITE \<and>
      \<not> has_kingside_castling_rights b BLACK \<and> \<not> has_queenside_castling_rights b BLACK \<and>
      ep_square b = None \<and> halfmove_clock b = 0)"
proof -
  have arr: "is_array 12 8 8 multi_hot"
    by code_simp
  show ?thesis
    using arr decode_default_game_state [of 12 8 8 multi_hot] by auto
qed

text \<open>
  C6, as stated, fails: an array of shape \<open>(20, 9, 9)\<close> is neither of 12 nor of 19
  channels and is not 8 by 8, yet the decoder returns the empty board for it and
  the flip returns an array for it (channels 19 and beyond left zero).
\<close>

theorem malformed_shape_accepted:
  "is_array 20 9 9 (zeros 20 9 9) \<and>
   tensor_to_board (zeros 20 9 9) = Inr Board_empty \<and>
   flip_board_tensor (zeros 20 9 9) = Inr ((zeros 20 9 9)[12 := replicate 9 (replicate 9 1)])"
proof -
  have arr: "is_array 20 9 9 (zeros 20 9 9)"
    by (rule is_array_zeros)
  have "readable (zeros 20 9 9)"
    using is_array_readable [OF arr] by simp
  then obtain m where dec: "tensor_to_board (zeros 20 9 9) = Inr (Board_empty\<lparr>piece_at := m\<rparr>)"
    and m: "\<forall>sq. m sq = (case filter (\<lambda>c. active (zeros 20 9 9) c sq) (rev [0..<12]) of
                            [] \<Rightarrow> None | c # rest \<Rightarrow> channel_piece c)"
    using tensor_to_board_ok by blast
  have "\<not> active (zeros 20 9 9) c sq" if "c < 12" for c sq
    using that by (simp add: active_def square_rank_def square_file_def zeros_nth)
  then have "filter (\<lambda>c. active (zeros 20 9 9) c sq) (rev [0..<12]) = []" for sq
    by (simp add: filter_empty_conv)
  then have "m = (\<lambda>sq. None)"
    using m by (simp add: fun_eq_iff)
  then have "Board_empty\<lparr>piece_at := m\<rparr> = Board_empty"
    by (simp add: Board_empty_def)
  moreover have "flip_board_tensor (zeros 20 9 9) =
      Inr ((zeros 20 9 9)[12 := replicate 9 (replicate 9 1)])"
    by code_simp
  ultimately show ?thesis
    using arr dec by simp
qed

text \<open>
  C6, amended: the module has no check of the shape. On an array of shape
  \<open>(c, h, w)\<close> the decoder returns a position exactly when \<open>c \<ge> 12\<close>, \<open>h \<ge> 8\<close> and
  \<open>w \<ge> 8\<close>, and raises the index error otherwise; it reads channels 0 to 11, ranks
  0 to 7 and files 0 to 7 only, so that any other array it accepts that agrees with
  this one on those cells decodes to the same result; the flip returns an array of the
  same shape exactly when \<open>c = 12\<close> or \<open>c \<ge> 17\<close>, whatever \<open>h\<close> and \<open>w\<close>, and raises
  the index error otherwise.
\<close>

theorem malformed_shape_behaviour:
  assumes "is_array c h w x"
  shows "((\<exists>b. tensor_to_board x = Inr b) \<longleftrightarrow> 12 \<le> c \<and> 8 \<le> h \<and> 8 \<le> w) \<and>
         (tensor_to_board x = Inl IndexError \<longleftrightarrow> c < 12 \<or> h < 8 \<or> w < 8) \<and>
         (\<forall>y c' h' w'.
            12 \<le> c \<and> 8 \<le> h \<and> 8 \<le> w \<and> is_array c' h' w' y \<and> 12 \<le> c' \<and> 8 \<le> h' \<and> 8 \<le> w' \<and>
            (\<forall>k<12. \<forall>r<8. \<forall>f<8. y ! k ! r ! f = x ! k ! r ! f) \<longrightarrow>
            tensor_to_board y = tensor_to_board x) \<and>
         ((\<exists>y. flip_board_tensor x = Inr y \<and> is_array c h w y) \<longleftrightarrow> c = 12 \<or> 17 \<le> c) \<and>
         (flip_board_tensor x = Inl IndexError \<longleftrightarrow> c < 12 \<or> (13 \<le> c \<and> c \<le> 16))"
proof -
  have len: "length x = c"
    using assms by (simp add: is_array_def)
  have dec_ok: "(\<exists>b. tensor_to_board x = Inr b) \<longleftrightarrow> 12 \<le> c \<and> 8 \<le> h \<and> 8 \<le> w"
  proof
    assume "\<exists>b. tensor_to_board x = Inr b"
    then have r: "readable x"
      using tensor_to_board_Inr by blast
    then have "12 \<le> c" "8 \<le> length (x ! 0)" "8 \<le> length (x ! 0 ! 0)"
      using len by (simp_all add: readable_nth)
    then show "12 \<le> c \<and> 8 \<le> h \<and> 8 \<le> w"
      using assms by (simp add: is_array_nth)
  next
    assume "12 \<le> c \<and> 8 \<le> h \<and> 8 \<le> w"
    then have "readable x"
      using is_array_readable [OF assms] by blast
    then show "\<exists>b. tensor_to_board x = Inr b"
      using tensor_to_board_ok by blast
  qed
  have dec_fail: "tensor_to_board x = Inl IndexError \<longleftrightarrow> c < 12 \<or> h < 8 \<or> w < 8"
  proof (cases "tensor_to_board x")
    case (Inl e)
    then have "e = IndexError" by (rule tensor_to_board_Inl)
    then show ?thesis using Inl dec_ok by auto
  next
    case (Inr b)
    then show ?thesis using dec_ok by auto
  qed
  have dec_reads: "tensor_to_board y = tensor_to_board x"
    if "12 \<le> c \<and> 8 \<le> h \<and> 8 \<le> w \<and> is_array c' h' w' y \<and> 12 \<le> c' \<and> 8 \<le> h' \<and> 8 \<le> w' \<and>
        (\<forall>k<12. \<forall>r<8. \<forall>f<8. y ! k ! r ! f = x ! k ! r ! f)" for y c' h' w'
  proof -
    have "readable x" and "readable y"
      using that is_array_readable [OF assms] is_array_readable [of c' h' w' y] by blast+
    then show ?thesis
      using that by (intro decode_reads_block) blast+
  qed
  have flip_ok: "(\<exists>y. flip_board_tensor x = Inr y \<and> is_array c h w y) \<longleftrightarrow> c = 12 \<or> 17 \<le> c"
  proof
    assume "\<exists>y. flip_board_tensor x = Inr y \<and> is_array c h w y"
    then show "c = 12 \<or> 17 \<le> c"
      using flip_fail_lt12 [of x] flip_fail_13_16 [of x] len
      by (cases "c < 12"; cases "12 < c \<and> c < 17") auto
  next
    assume "c = 12 \<or> 17 \<le> c"
    then obtain y where "flip_board_tensor x = Inr y"
      using flip_12 [of x] flip_ok_ge17 [of x] len by auto
    then show "\<exists>y. flip_board_tensor x = Inr y \<and> is_array c h w y"
      using flip_arr [OF assms] by blast
  qed
  have flip_fail: "flip_board_tensor x = Inl IndexError \<longleftrightarrow> c < 12 \<or> (13 \<le> c \<and> c \<le> 16)"
  proof
    assume "flip_board_tensor x = Inl IndexError"
    then have "\<not> (\<exists>y. flip_board_tensor x = Inr y \<and> is_array c h w y)" by simp
    then have "\<not> (c = 12 \<or> 17 \<le> c)"
      using flip_ok by blast
    then show "c < 12 \<or> (13 \<le> c \<and> c \<le> 16)"
      by arith
  next
    assume "c < 12 \<or> (13 \<le> c \<and> c \<le> 16)"
    then show "flip_board_tensor x = Inl IndexError"
      using flip_fail_lt12 [of x] flip_fail_13_16 [of x] len by auto
  qed
  show ?thesis
    using dec_ok dec_fail dec_reads flip_ok flip_fail by blast
qed

theorem malformed_shape_behaviour_witness:
  "is_array 14 8 8 (zeros 14 8 8) \<and>
   is_array 20 9 9 ((zeros 20 9 9)[12 := replicate 9 (replicate 9 1)]) \<and>
   (\<exists>b. tensor_to_board (zeros 14 8 8) = Inr b) \<and>
   tensor_to_board (zeros 14 8 8) \<noteq> Inl IndexError \<and>
   tensor_to_board ((zeros 20 9 9)[12 := replicate 9 (replicate 9 1)]) =
     tensor_to_board (zeros 14 8 8) \<and>
   \<not> (\<exists>y. flip_board_tensor (zeros 14 8 8) = Inr y \<and> is_array 14 8 8 y) \<and>
   flip_board_tensor (zeros 14 8 8) = Inl IndexError"
proof -
  let ?y = "(zeros 20 9 9)[12 := replicate 9 (replicate 9 1)]"
  have arr: "is_array 14 8 8 (zeros 14 8 8)"
    by (rule is_array_zeros)
  have arr': "is_array 20 9 9 ?y"
    by code_simp
  have same: "\<forall>k<12. \<forall>r<8. \<forall>f<8. ?y ! k ! r ! f = zeros 14 8 8 ! k ! r ! f"
    by (simp add: zeros_def)
  note all = malformed_shape_behaviour [OF arr]
  have "(12::nat) \<le> 14 \<and> (8::nat) \<le> 8 \<and> (8::nat) \<le> 8 \<and> is_array 20 9 9 ?y \<and>
        (12::nat) \<le> 20 \<and> (8::nat) \<le> 9 \<and> (8::nat) \<le> 9 \<and>
        (\<forall>k<12. \<forall>r<8. \<forall>f<8. ?y ! k ! r ! f = zeros 14 8 8 ! k ! r ! f) \<longrightarrow>
        tensor_to_board ?y = tensor_to_board (zeros 14 8 8)"
    using all by blast
  then have "tensor_to_board ?y = tensor_to_board (zeros 14 8 8)"
    using arr' same by simp
  then show ?thesis
    using arr arr' all by simp
qed

section \<open>The extended encoding\<close>

lemma map_const: "(\<forall>x\<in>set xs. f x = v) \<Longrightarrow> map f xs = replicate (length xs) v"
  by (induction xs) auto

lemma shape_of_array: "is_array c h w t \<Longrightarrow> shape_of t = replicate c (replicate h w)"
proof -
  assume a: "is_array c h w t"
  have "map length p = replicate h w" if "p \<in> set t" for p
    using a that map_const [of p length w] by (auto simp: is_array_def list_all_iff)
  then have "map (map length) t = replicate (length t) (replicate h w)"
    by (intro map_const) simp
  then show ?thesis
    using a by (simp add: shape_of_def is_array_def)
qed

lemma set_planes_upto_basic:
  assumes "is_array 12 8 8 basic"
  shows "\<exists>t. set_planes_upto (zeros 19 8 8) 12 basic = Inr t \<and> is_array 19 8 8 t \<and>
           t ! 17 = replicate 8 (replicate 8 0)"
proof -
  have tk: "take 12 (zeros 19 8 8) = zeros 12 8 8"
    and dr: "drop 12 (zeros 19 8 8) = zeros 7 8 8"
    by (simp_all add: zeros_def)
  have "shape_of basic = shape_of (take 12 (zeros 19 8 8))"
    using shape_of_array [OF assms] shape_of_array [OF is_array_zeros [of 12 8 8]] tk by simp
  then have run: "set_planes_upto (zeros 19 8 8) 12 basic = Inr (basic @ zeros 7 8 8)"
    by (simp add: set_planes_upto_def dr)
  have len: "length basic = 12"
    using assms by (simp add: is_array_def)
  have "is_array 19 8 8 (basic @ zeros 7 8 8)"
    using assms is_array_zeros [of 7 8 8] by (simp add: is_array_def)
  moreover have "(basic @ zeros 7 8 8) ! 17 = replicate 8 (replicate 8 0)"
    by (simp add: nth_append len zeros_def)
  ultimately show ?thesis
    using run by blast
qed

lemma fill_plane_arr:
  assumes "is_array C H W t" and "c < C"
  shows "\<exists>t'. fill_plane t c v = Inr t' \<and> is_array C H W t' \<and> (\<forall>k. k \<noteq> c \<longrightarrow> t' ! k = t ! k)"
proof -
  have len: "length t = C" using assms by (simp add: is_array_def)
  have p: "length (t ! c) = H" "list_all (\<lambda>r. length r = W) (t ! c)"
    using assms by (simp_all add: is_array_def list_all_length)
  have np: "length (map (map (\<lambda>x. v)) (t ! c)) = H \<and>
            list_all (\<lambda>r. length r = W) (map (map (\<lambda>x. v)) (t ! c))"
    using p by (simp add: list_all_iff)
  have "list_all (\<lambda>p. length p = H \<and> list_all (\<lambda>r. length r = W) p)
          (t[c := map (map (\<lambda>x. v)) (t ! c)])"
    using assms(1) np by (intro list_all_update) (simp_all add: is_array_def)
  then have "is_array C H W (t[c := map (map (\<lambda>x. v)) (t ! c)])"
    using len by (simp add: is_array_def)
  then show ?thesis
    using len assms(2) by (simp add: fill_plane_def)
qed

lemma cond_fill:
  assumes "is_array 19 8 8 t" and "c < 19" and "c \<noteq> 17"
  shows "\<exists>t'. (if b then fill_plane t c v else Inr t) = Inr t' \<and> is_array 19 8 8 t' \<and>
            t' ! 17 = t ! 17"
  using fill_plane_arr [OF assms(1,2), of v] assms(1,3) by (cases b) auto

lemma fill_file_arr:
  assumes "is_array C H W t" and "c < C" and "f < W"
  shows "fill_file t c f v = Inr (t[c := map (\<lambda>r. r[f := v]) (t ! c)]) \<and>
         is_array C H W (t[c := map (\<lambda>r. r[f := v]) (t ! c)])"
proof -
  have len: "length t = C" using assms by (simp add: is_array_def)
  have p: "length (t ! c) = H" "list_all (\<lambda>r. length r = W) (t ! c)"
    using assms(1,2) by (simp_all add: is_array_def list_all_length)
  have "list_all (\<lambda>r. f < length r) (t ! c)"
    using p(2) assms(3) by (simp add: list_all_iff)
  moreover have np: "length (map (\<lambda>r. r[f := v]) (t ! c)) = H \<and>
            list_all (\<lambda>r. length r = W) (map (\<lambda>r. r[f := v]) (t ! c))"
    using p by (simp add: list_all_iff)
  have "list_all (\<lambda>p. length p = H \<and> list_all (\<lambda>r. length r = W) p)
          (t[c := map (\<lambda>r. r[f := v]) (t ! c)])"
    using assms(1) np by (intro list_all_update) (simp_all add: is_array_def)
  then have "is_array C H W (t[c := map (\<lambda>r. r[f := v]) (t ! c)])"
    using len by (simp add: is_array_def)
  ultimately show ?thesis
    using len assms(2) by (simp add: fill_file_def)
qed

lemma extended_channel_17:
  "\<exists>t. board_to_tensor_extended p = Inr t \<and> is_array 19 8 8 t \<and>
       t ! 17 = (case ep_square p of
                   None \<Rightarrow> replicate 8 (replicate 8 0)
                 | Some sq \<Rightarrow> replicate 8 ((replicate 8 0)[square_file sq := 1]))"
proof -
  obtain basic where enc: "board_to_tensor p = Inr basic" and "is_array 12 8 8 basic"
    using board_to_tensor_cells [of p] by blast
  then obtain t0 where s0: "set_planes_upto (zeros 19 8 8) 12 basic = Inr t0"
    and a0: "is_array 19 8 8 t0" and z0: "t0 ! 17 = replicate 8 (replicate 8 0)"
    using set_planes_upto_basic by blast
  obtain t1 where s1: "(if turn p = WHITE then fill_plane t0 12 1 else Inr t0) = Inr t1"
    and a1: "is_array 19 8 8 t1" and z1: "t1 ! 17 = t0 ! 17"
    using cond_fill [OF a0, of 12] by auto
  obtain t2 where s2: "(if has_kingside_castling_rights p WHITE
               then fill_plane t1 13 1 else Inr t1) = Inr t2"
    and a2: "is_array 19 8 8 t2" and z2: "t2 ! 17 = t1 ! 17"
    using cond_fill [OF a1, of 13] by auto
  obtain t3 where s3: "(if has_queenside_castling_rights p WHITE
               then fill_plane t2 14 1 else Inr t2) = Inr t3"
    and a3: "is_array 19 8 8 t3" and z3: "t3 ! 17 = t2 ! 17"
    using cond_fill [OF a2, of 14] by auto
  obtain t4 where s4: "(if has_kingside_castling_rights p BLACK
               then fill_plane t3 15 1 else Inr t3) = Inr t4"
    and a4: "is_array 19 8 8 t4" and z4: "t4 ! 17 = t3 ! 17"
    using cond_fill [OF a3, of 15] by auto
  obtain t5 where s5: "(if has_queenside_castling_rights p BLACK
               then fill_plane t4 16 1 else Inr t4) = Inr t5"
    and a5: "is_array 19 8 8 t5" and z5: "t5 ! 17 = t4 ! 17"
    using cond_fill [OF a4, of 16] by auto
  have z: "t5 ! 17 = replicate 8 (replicate 8 0)"
    using z0 z1 z2 z3 z4 z5 by simp
  obtain t6 where s6: "(case ep_square p of None \<Rightarrow> Inr t5
               | Some sq \<Rightarrow> fill_file t5 17 (square_file sq) 1) = Inr t6"
    and a6: "is_array 19 8 8 t6"
    and z6: "t6 ! 17 = (case ep_square p of
                   None \<Rightarrow> replicate 8 (replicate 8 0)
                 | Some sq \<Rightarrow> replicate 8 ((replicate 8 0)[square_file sq := 1]))"
  proof (cases "ep_square p")
    case None
    then show ?thesis using that [of t5] a5 z by simp
  next
    case (Some sq)
    have f: "square_file sq < 8" by (simp add: square_file_def)
    have len: "length t5 = 19" using a5 by (simp add: is_array_def)
    show ?thesis
      using that [of "t5[17 := map (\<lambda>r. r[square_file sq := 1]) (t5 ! 17)]"]
        fill_file_arr [OF a5 _ f, of 17 1] Some len by (simp add: z)
  qed
  obtain t7 where s7: "fill_plane t6 18
       (f32_round (min (f64_round (f64_round (real (halfmove_clock p)) / 100)) 1)) = Inr t7"
    and a7: "is_array 19 8 8 t7" and others: "\<forall>k. k \<noteq> 18 \<longrightarrow> t7 ! k = t6 ! k"
    using fill_plane_arr [OF a6, of 18
        "f32_round (min (f64_round (f64_round (real (halfmove_clock p)) / 100)) 1)"] by auto
  have z7: "t7 ! 17 = t6 ! 17"
    using others by simp
  have "board_to_tensor_extended p = Inr t7"
    unfolding board_to_tensor_extended_def
    by (simp only: enc and_then_Inr s0 s1 s2 s3 s4 s5 s6 s7)
  then show ?thesis
    using a7 z7 z6 by auto
qed



end
